theory Spec2Isabelle
  imports Main "HOL-Library.Sublist"
begin

section \<open>Python strings\<close>

text \<open>
  The two scripts, \<^verbatim>\<open>scripts/add-missing-titles.py\<close> and
  \<^verbatim>\<open>scripts/fix-title-quotes.py\<close>, work on Python \<^verbatim>\<open>str\<close> values, which are
  sequences of Unicode code points. A character is modelled by its code point
  (\<^verbatim>\<open>ord(c)\<close>, an integer) and a text by the list of its characters, so that every
  Python string is a value of the model. \<open>str\<close> turns a literal into such a list.
\<close>

type_synonym uchar = int

type_synonym ustr = "uchar list"

abbreviation ch :: "char \<Rightarrow> uchar" where
  "ch \<equiv> of_char"

abbreviation str :: "string \<Rightarrow> ustr" where
  "str s \<equiv> map ch s"

abbreviation NL :: uchar where
  "NL \<equiv> 0x0A"

abbreviation BLANK :: uchar where
  "BLANK \<equiv> 0x20"

abbreviation DQUOTE :: uchar where
  "DQUOTE \<equiv> 0x22"


abbreviation SQUOTE :: uchar where
  "SQUOTE \<equiv> 0x27"

abbreviation DASH :: uchar where
  "DASH \<equiv> 0x2D"

abbreviation DOT :: uchar where
  "DOT \<equiv> 0x2E"

abbreviation COLON :: uchar where
  "COLON \<equiv> 0x3A"

abbreviation UNDERSCORE :: uchar where
  "UNDERSCORE \<equiv> 0x5F"

definition whitespace :: "uchar list" where
  \<comment> \<open>the characters for which \<^verbatim>\<open>str.isspace()\<close> holds, all 29 of them: TAB, LF, VT,
      FF, CR, FS, GS, RS, US, the blank, NEL, the no-break space, and the Unicode
      spaces and line separators beyond U+00FF. Both \<^verbatim>\<open>\s\<close> of \<^verbatim>\<open>re\<close> (on a
      \<^verbatim>\<open>str\<close> pattern) and \<^verbatim>\<open>str.strip()\<close>, \<^verbatim>\<open>str.lstrip()\<close> use this class.\<close>
  "whitespace =
     [0x09, 0x0A, 0x0B, 0x0C, 0x0D, 0x1C, 0x1D, 0x1E, 0x1F, 0x20, 0x85, 0xA0,
      0x1680, 0x2000, 0x2001, 0x2002, 0x2003, 0x2004, 0x2005, 0x2006, 0x2007,
      0x2008, 0x2009, 0x200A, 0x2028, 0x2029, 0x202F, 0x205F, 0x3000]"

definition is_space :: "uchar \<Rightarrow> bool" where
  "is_space c = (c \<in> set whitespace)"

definition lstrip :: "ustr \<Rightarrow> ustr" where
  "lstrip s = dropWhile is_space s"

definition rstrip :: "ustr \<Rightarrow> ustr" where
  "rstrip s = rev (dropWhile is_space (rev s))"

definition strip :: "ustr \<Rightarrow> ustr" where
  "strip s = rstrip (lstrip s)"

text \<open>
  \<^verbatim>\<open>str.capitalize()\<close> follows the case tables of Unicode, which are no part of the
  scripts: it may change the length of a word (\<^verbatim>\<open>'\<ss>'\<close> gives \<^verbatim>\<open>'Ss'\<close>) and
  depends on the context of a letter. On a word of ASCII characters it upper-cases a
  first letter \<^verbatim>\<open>a\<close>..\<^verbatim>\<open>z\<close>, lower-cases every later letter \<^verbatim>\<open>A\<close>..\<^verbatim>\<open>Z\<close> and
  keeps everything else; this is written out. On any other word the result is
  what the parameter \<open>cap\<close> gives, and nothing is assumed of it.
\<close>

definition is_ascii :: "uchar \<Rightarrow> bool" where
  "is_ascii c = (0 \<le> c \<and> c < 128)"

definition lowers :: ustr where
  "lowers = str ''abcdefghijklmnopqrstuvwxyz''"

definition uppers :: ustr where
  "uppers = str ''ABCDEFGHIJKLMNOPQRSTUVWXYZ''"

definition ascii_upper :: "uchar \<Rightarrow> uchar" where
  "ascii_upper c = (case map_of (zip lowers uppers) c of Some u \<Rightarrow> u | None \<Rightarrow> c)"

definition ascii_lower :: "uchar \<Rightarrow> uchar" where
  "ascii_lower c = (case map_of (zip uppers lowers) c of Some l \<Rightarrow> l | None \<Rightarrow> c)"

definition capitalize_ascii :: "ustr \<Rightarrow> ustr" where
  "capitalize_ascii w = (case w of [] \<Rightarrow> [] | c # cs \<Rightarrow> ascii_upper c # map ascii_lower cs)"

definition capitalize :: "(ustr \<Rightarrow> ustr) \<Rightarrow> ustr \<Rightarrow> ustr" where
  \<comment> \<open>\<^verbatim>\<open>word.capitalize()\<close>\<close>
  "capitalize cap w = (if list_all is_ascii w then capitalize_ascii w else cap w)"

primrec split_on :: "(uchar \<Rightarrow> bool) \<Rightarrow> ustr \<Rightarrow> ustr list" where
  \<comment> \<open>\<^verbatim>\<open>s.split(sep)\<close> and \<^verbatim>\<open>re.split('[...]', s)\<close> for a one-character separator class:
      every separator ends a piece, empty pieces are kept, the result is never empty.\<close>
  "split_on sep [] = [[]]"
| "split_on sep (c # cs) =
     (let r = split_on sep cs in if sep c then [] # r else (c # hd r) # tl r)"

definition split_nl :: "ustr \<Rightarrow> ustr list" where
  \<comment> \<open>\<^verbatim>\<open>content.split('\n')\<close>\<close>
  "split_nl s = split_on (\<lambda>c. c = NL) s"

fun join :: "ustr \<Rightarrow> ustr list \<Rightarrow> ustr" where
  \<comment> \<open>\<^verbatim>\<open>sep.join(xs)\<close>\<close>
  "join sep [] = []"
| "join sep [x] = x"
| "join sep (x # y # ys) = x @ sep @ join sep (y # ys)"

definition slice :: "nat \<Rightarrow> nat \<Rightarrow> 'a list \<Rightarrow> 'a list" where
  \<comment> \<open>\<^verbatim>\<open>xs[a:b]\<close> for non-negative bounds\<close>
  "slice a b xs = take (b - a) (drop a xs)"

section \<open>Regular expressions\<close>

text \<open>
  The patterns of the scripts are sequences of literals, single character classes and
  greedy repetitions of a character class. Each construct is a matcher in
  continuation-passing style: it consumes a prefix of the input and hands the rest to
  the continuation; \<^verbatim>\<open>None\<close> makes the enclosing repetition give back one
  character and try again, as the backtracking matcher of \<^verbatim>\<open>re\<close> does.
\<close>

definition rx_lit :: "ustr \<Rightarrow> (ustr \<Rightarrow> 'a option) \<Rightarrow> ustr \<Rightarrow> 'a option" where
  "rx_lit l k s = (if prefix l s then k (drop (length l) s) else None)"

definition rx_one :: "(uchar \<Rightarrow> bool) \<Rightarrow> (ustr \<Rightarrow> 'a option) \<Rightarrow> ustr \<Rightarrow> 'a option" where
  "rx_one p k s = (case s of [] \<Rightarrow> None | c # cs \<Rightarrow> if p c then k cs else None)"

fun rx_star :: "(uchar \<Rightarrow> bool) \<Rightarrow> (ustr \<Rightarrow> 'a option) \<Rightarrow> ustr \<Rightarrow> 'a option" where
  \<comment> \<open>greedy \<^verbatim>\<open>p*\<close>: the longest run first, then one character less, ...\<close>
  "rx_star p k [] = k []"
| "rx_star p k (c # cs) =
     (if p c then (case rx_star p k cs of Some r \<Rightarrow> Some r | None \<Rightarrow> k (c # cs))
      else k (c # cs))"

definition rx_plus :: "(uchar \<Rightarrow> bool) \<Rightarrow> (ustr \<Rightarrow> 'a option) \<Rightarrow> ustr \<Rightarrow> 'a option" where
  "rx_plus p k s = rx_one p (rx_star p k) s"

fun rx_star_group ::
  "(uchar \<Rightarrow> bool) \<Rightarrow> (ustr \<Rightarrow> ustr \<Rightarrow> 'a option) \<Rightarrow> ustr \<Rightarrow> ustr \<Rightarrow> 'a option" where
  \<comment> \<open>a greedy repetition inside a capturing group: the continuation also gets the
      text the group has consumed\<close>
  "rx_star_group p k g [] = k g []"
| "rx_star_group p k g (c # cs) =
     (if p c then (case rx_star_group p k (g @ [c]) cs of Some r \<Rightarrow> Some r
                   | None \<Rightarrow> k g (c # cs))
      else k g (c # cs))"

definition rx_plus_group ::
  "(uchar \<Rightarrow> bool) \<Rightarrow> (ustr \<Rightarrow> ustr \<Rightarrow> 'a option) \<Rightarrow> ustr \<Rightarrow> 'a option" where
  "rx_plus_group p k s =
     (case s of [] \<Rightarrow> None | c # cs \<Rightarrow> if p c then rx_star_group p k [c] cs else None)"

definition rx_end :: "ustr \<Rightarrow> bool" where
  \<comment> \<open>\<^verbatim>\<open>$\<close> without MULTILINE: the end of the text, or just before a final newline\<close>
  "rx_end s = (s = [] \<or> s = [NL])"

definition rx_dot :: "uchar \<Rightarrow> bool" where
  \<comment> \<open>\<^verbatim>\<open>.\<close>: any character but the newline\<close>
  "rx_dot c = (c \<noteq> NL)"

definition not_quote :: "uchar \<Rightarrow> bool" where
  \<comment> \<open>the class \<^verbatim>\<open>[^"\']\<close>\<close>
  "not_quote c = (c \<noteq> DQUOTE \<and> c \<noteq> SQUOTE)"

section \<open>add-missing-titles.py\<close>

subsection \<open>extract\_h1\<close>

definition h1_match :: "ustr \<Rightarrow> ustr option" where
  \<comment> \<open>\<^verbatim>\<open>re.match(r'^#\s+(.+)$', line)\<close>, the result being \<^verbatim>\<open>group(1)\<close>\<close>
  "h1_match line =
     rx_lit (str ''#'') (rx_plus is_space
       (rx_plus_group rx_dot (\<lambda>g rest. if rx_end rest then Some g else None))) line"

fun first_h1 :: "ustr list \<Rightarrow> ustr option" where
  \<comment> \<open>the loop of \<^verbatim>\<open>extract_h1\<close>: the first line that matches decides\<close>
  "first_h1 [] = None"
| "first_h1 (line # rest) =
     (case h1_match line of Some g \<Rightarrow> Some (strip g) | None \<Rightarrow> first_h1 rest)"

definition extract_h1 :: "ustr \<Rightarrow> ustr option" where
  "extract_h1 content = first_h1 (split_nl content)"

subsection \<open>generate\_title\_from\_path\<close>

text \<open>
  A \<^verbatim>\<open>pathlib.Path\<close> is modelled by its parts (\<^verbatim>\<open>docs/guides/index.md\<close> has the
  three parts \<^verbatim>\<open>docs\<close>, \<^verbatim>\<open>guides\<close>, \<^verbatim>\<open>index.md\<close>); the scripts only meet relative paths
  below \<^verbatim>\<open>docs\<close>. \<^verbatim>\<open>name\<close>, \<^verbatim>\<open>stem\<close> and \<^verbatim>\<open>parent\<close> follow pathlib
  (the stem cuts the name at its last dot, unless that dot is the first or the last
  character of the name, as pathlib does up to Python 3.13; on the \<^verbatim>\<open>*.md\<close> names
  that the scripts list, later versions agree).
\<close>

type_synonym path = "ustr list"

definition path_name :: "path \<Rightarrow> ustr" where
  "path_name p = (if p = [] then [] else last p)"

definition path_parent :: "path \<Rightarrow> path" where
  "path_parent p = butlast p"

fun rfind :: "uchar \<Rightarrow> ustr \<Rightarrow> nat option" where
  \<comment> \<open>\<^verbatim>\<open>s.rfind(c)\<close>, \<^verbatim>\<open>None\<close> standing for -1\<close>
  "rfind c [] = None"
| "rfind c (x # xs) =
     (case rfind c xs of Some i \<Rightarrow> Some (Suc i)
      | None \<Rightarrow> if x = c then Some 0 else None)"

definition path_stem :: "path \<Rightarrow> ustr" where
  "path_stem p =
     (let name = path_name p in
      case rfind DOT name of
        Some i \<Rightarrow> if 0 < i \<and> i + 1 < length name then take i name else name
      | None \<Rightarrow> name)"

definition path_str :: "path \<Rightarrow> ustr" where
  "path_str p = (if p = [] then str ''.'' else join (str ''/'') p)"

definition is_sep :: "uchar \<Rightarrow> bool" where
  \<comment> \<open>the class \<^verbatim>\<open>[-_]\<close>\<close>
  "is_sep c = (c = DASH \<or> c = UNDERSCORE)"

definition title_basename :: "path \<Rightarrow> ustr" where
  \<comment> \<open>the \<^verbatim>\<open>basename\<close> variable of \<^verbatim>\<open>generate_title_from_path\<close>
      after the \<^verbatim>\<open>index\<close> test\<close>
  "title_basename p =
     (let basename = path_stem p in
      if basename = str ''index'' then path_name (path_parent p) else basename)"

definition generate_title_from_path :: "(ustr \<Rightarrow> ustr) \<Rightarrow> path \<Rightarrow> ustr" where
  "generate_title_from_path cap p =
     (let words = split_on is_sep (title_basename p)
      in join (str '' '') (map (capitalize cap) words))"

fun title_chars :: "bool \<Rightarrow> ustr \<Rightarrow> ustr" where
  \<comment> \<open>for the proofs: the title that \<^verbatim>\<open>' '.join(word.capitalize() ...)\<close> builds
      from a base name of ASCII characters, read off the base name one character at
      a time; the flag says that the next character starts a word\<close>
  "title_chars start [] = []"
| "title_chars start (c # cs) =
     (if is_sep c then BLANK # title_chars True cs
      else (if start then ascii_upper c else ascii_lower c) # title_chars False cs)"

subsection \<open>has\_frontmatter, extract\_frontmatter\<close>

definition has_frontmatter :: "ustr \<Rightarrow> bool" where
  "has_frontmatter content = prefix (str ''---'' @ [NL]) content"

fun find_end :: "nat \<Rightarrow> ustr list \<Rightarrow> nat option" where
  \<comment> \<open>\<^verbatim>\<open>for i, line in enumerate(lines[1:], 1)\<close>: the index of the first line
      whose stripped text is the delimiter\<close>
  "find_end i [] = None"
| "find_end i (line # rest) =
     (if strip line = str ''---'' then Some i else find_end (Suc i) rest)"

definition extract_frontmatter :: "ustr \<Rightarrow> ustr \<times> ustr" where
  "extract_frontmatter content =
     (if \<not> has_frontmatter content then ([], content)
      else
        let lines = split_nl content in
        case find_end 1 (drop 1 lines) of
          None \<Rightarrow> ([], content)
        | Some end_idx \<Rightarrow>
            (join [NL] (slice 1 end_idx lines),
             join [NL] (drop (end_idx + 1) lines)))"

subsection \<open>add\_title\_to\_file\<close>

fun search_title_from :: "bool \<Rightarrow> ustr \<Rightarrow> bool" where
  \<comment> \<open>\<^verbatim>\<open>re.search(r'^title:', text, re.MULTILINE)\<close>: every position is tried in turn;
      \<^verbatim>\<open>^\<close> holds at the start of the text and after each newline (the flag)\<close>
  "search_title_from bol [] = False"
| "search_title_from bol (c # cs) =
     ((bol \<and> prefix (str ''title:'') (c # cs)) \<or> search_title_from (c = NL) cs)"

definition search_title :: "ustr \<Rightarrow> bool" where
  "search_title text = search_title_from True text"

definition resolve_title :: "(ustr \<Rightarrow> ustr) \<Rightarrow> path \<Rightarrow> ustr \<Rightarrow> ustr" where
  \<comment> \<open>\<^verbatim>\<open>title = extract_h1(content)\<close>, replaced by the path's title when it is
      \<^verbatim>\<open>None\<close> or empty (\<^verbatim>\<open>if not title\<close>)\<close>
  "resolve_title cap file_path content =
     (case extract_h1 content of
        None \<Rightarrow> generate_title_from_path cap file_path
      | Some title \<Rightarrow> if title = [] then generate_title_from_path cap file_path else title)"

definition add_title :: "(ustr \<Rightarrow> ustr) \<Rightarrow> path \<Rightarrow> ustr \<Rightarrow> ustr option" where
  \<comment> \<open>the body of \<^verbatim>\<open>add_title_to_file\<close> between the read and the write:
      \<^verbatim>\<open>None\<close> is the early return (title already exists), \<^verbatim>\<open>Some\<close> the new content\<close>
  "add_title cap file_path content =
     (let title = resolve_title cap file_path content;
          (frontmatter, body) = extract_frontmatter content
      in if search_title frontmatter then None
         else
           let new_frontmatter =
                 (if frontmatter \<noteq> [] then str ''title: '' @ title @ [NL] @ frontmatter
                  else (str ''title: '') @ title)
           in Some (str ''---'' @ [NL] @ new_frontmatter @ [NL] @ str ''---'' @ [NL] @ lstrip body))"

text \<open>
  The file system is a map from paths to files; a file either holds text (the text
  that \<^verbatim>\<open>read_text\<close> returns for it and that \<^verbatim>\<open>write_text\<close> stores) or bytes
  that do not decode. \<^verbatim>\<open>read_text\<close> raises on a missing path and on undecodable
  content; the exception is the \<open>Inl\<close> result, and the file system is returned with
  it, since what was written before the exception stays written. Console output is
  not modelled.
\<close>

datatype file_content = Text ustr | Undecodable

datatype error = FileNotFoundError | UnicodeDecodeError

type_synonym fs = "path \<Rightarrow> file_content option"

definition read_text :: "fs \<Rightarrow> path \<Rightarrow> error + ustr" where
  "read_text files p =
     (case files p of
        None \<Rightarrow> Inl FileNotFoundError
      | Some Undecodable \<Rightarrow> Inl UnicodeDecodeError
      | Some (Text s) \<Rightarrow> Inr s)"

definition write_text :: "fs \<Rightarrow> path \<Rightarrow> ustr \<Rightarrow> fs" where
  "write_text files p s = files(p \<mapsto> Text s)"

definition add_title_to_file :: "(ustr \<Rightarrow> ustr) \<Rightarrow> path \<Rightarrow> fs \<Rightarrow> (error + unit) \<times> fs" where
  "add_title_to_file cap file_path files =
     (case read_text files file_path of
        Inl e \<Rightarrow> (Inl e, files)
      | Inr content \<Rightarrow>
          (case add_title cap file_path content of
             None \<Rightarrow> (Inr (), files)
           | Some new_content \<Rightarrow> (Inr (), write_text files file_path new_content)))"

subsection \<open>main\<close>

definition exclusions :: "ustr list" where
  "exclusions = [str ''docs/tags.md'', str ''docs/includes/'']"

definition excluded :: "path \<Rightarrow> bool" where
  "excluded md_file = list_ex (\<lambda>exc. prefix exc (path_str md_file)) exclusions"

fun titles_loop :: "(ustr \<Rightarrow> ustr) \<Rightarrow> path list \<Rightarrow> nat \<Rightarrow> fs \<Rightarrow> (error + nat) \<times> fs" where
  \<comment> \<open>the \<^verbatim>\<open>for md_file in md_files\<close> loop of \<^verbatim>\<open>main\<close>, \<^verbatim>\<open>processed\<close>
      being the counter; nothing catches an exception of \<^verbatim>\<open>add_title_to_file\<close>,
      so it ends the loop and the run\<close>
  "titles_loop cap [] processed files = (Inr processed, files)"
| "titles_loop cap (md_file # rest) processed files =
     (if excluded md_file then titles_loop cap rest processed files
      else
        case add_title_to_file cap md_file files of
          (Inl e, files') \<Rightarrow> (Inl e, files')
        | (Inr u, files') \<Rightarrow> titles_loop cap rest (processed + 1) files')"

definition titles_main :: "(ustr \<Rightarrow> ustr) \<Rightarrow> path list \<Rightarrow> fs \<Rightarrow> (error + nat) \<times> fs" where
  \<comment> \<open>\<^verbatim>\<open>main\<close>, given the files that \<^verbatim>\<open>docs_dir.rglob('*.md')\<close> lists\<close>
  "titles_main cap md_files files = titles_loop cap md_files 0 files"

section \<open>fix-title-quotes.py\<close>

definition unquoted_match :: "ustr \<Rightarrow> bool" where
  \<comment> \<open>\<^verbatim>\<open>re.match(r'^title:\s+[^"\'].*:.*[^"\']$', line)\<close>\<close>
  "unquoted_match line =
     (rx_lit (str ''title:'') (rx_plus is_space (rx_one not_quote (rx_star rx_dot
        (rx_lit (str '':'') (rx_star rx_dot (rx_one not_quote
           (\<lambda>rest. if rx_end rest then Some () else None))))))) line \<noteq> None)"

definition value_match :: "ustr \<Rightarrow> ustr option" where
  \<comment> \<open>\<^verbatim>\<open>re.match(r'^title:\s+(.+)$', line)\<close>, the result being \<^verbatim>\<open>group(1)\<close>\<close>
  "value_match line =
     rx_lit (str ''title:'') (rx_plus is_space
       (rx_plus_group rx_dot (\<lambda>g rest. if rx_end rest then Some g else None))) line"

definition starts_with_quote :: "ustr \<Rightarrow> bool" where
  \<comment> \<open>\<^verbatim>\<open>title_value.startswith('"') or title_value.startswith("'")\<close>\<close>
  "starts_with_quote v = (prefix [DQUOTE] v \<or> prefix [SQUOTE] v)"

definition quote_line :: "ustr \<Rightarrow> ustr option" where
  \<comment> \<open>the body of the loop for one line: \<^verbatim>\<open>Some\<close> is the new text of the line
      (the branch that assigns \<^verbatim>\<open>lines[i]\<close> and breaks)\<close>
  "quote_line line =
     (if unquoted_match line then
        (case value_match line of
           Some title_value \<Rightarrow>
             if \<not> starts_with_quote title_value
             then Some (str ''title: '' @ [DQUOTE] @ title_value @ [DQUOTE])
             else None
         | None \<Rightarrow> None)
      else None)"

function quote_loop :: "nat \<Rightarrow> ustr list \<Rightarrow> ustr list \<times> bool" where
  \<comment> \<open>\<^verbatim>\<open>for i, line in enumerate(lines)\<close> from index \<open>i\<close> on; the result is
      \<^verbatim>\<open>(lines, modified)\<close>\<close>
  "quote_loop i lines =
     (if i < length lines then
        (case quote_line (lines ! i) of
           Some new_line \<Rightarrow> (lines[i := new_line], True)
         | None \<Rightarrow> quote_loop (Suc i) lines)
      else (lines, False))"
  by pat_completeness auto
termination
  by (relation "measure (\<lambda>(i, lines). length lines - i)") auto

definition fix_title :: "ustr \<Rightarrow> ustr option" where
  \<comment> \<open>\<^verbatim>\<open>fix_title_in_file\<close> between the read and the write: \<^verbatim>\<open>Some\<close> is the
      text written, \<^verbatim>\<open>None\<close> means that nothing is written\<close>
  "fix_title content =
     (let (lines, modified) = quote_loop 0 (split_nl content)
      in if modified then Some (join [NL] lines) else None)"

definition fix_title_in_file :: "path \<Rightarrow> fs \<Rightarrow> (error + unit) \<times> fs" where
  "fix_title_in_file file_path files =
     (case read_text files file_path of
        Inl e \<Rightarrow> (Inl e, files)
      | Inr content \<Rightarrow>
          (case fix_title content of
             None \<Rightarrow> (Inr (), files)
           | Some new_content \<Rightarrow> (Inr (), write_text files file_path new_content)))"

fun quotes_main :: "path list \<Rightarrow> fs \<Rightarrow> (error + unit) \<times> fs" where
  \<comment> \<open>\<^verbatim>\<open>main\<close>, given the files that \<^verbatim>\<open>blog_dir.glob('*.md')\<close> lists\<close>
  "quotes_main [] files = (Inr (), files)"
| "quotes_main (md_file # rest) files =
     (case fix_title_in_file md_file files of
        (Inl e, files') \<Rightarrow> (Inl e, files')
      | (Inr u, files') \<Rightarrow> quotes_main rest files')"

section \<open>The examples of the specification\<close>

lemma example_h1: "extract_h1 (str ''intro'' @ [NL] @ str ''# Example: Thing  '' @ [NL] @ str ''# Later'') = Some (str ''Example: Thing'')"
  by code_simp

lemma example_h2_is_no_h1: "extract_h1 (str ''## Section'' @ [NL] @ str ''#NoSpace'') = None"
  by code_simp

lemma example_index_path: "generate_title_from_path cap [str ''docs'', str ''guides'', str ''index.md''] = str ''Guides''"
  by code_simp

lemma example_kebab_snake_path: "generate_title_from_path cap [str ''docs'', str ''my-cool_page.md''] = str ''My Cool Page''"
  by code_simp

lemma example_insert:
  "add_title cap [str ''docs'', str ''x.md'']
     (str ''---'' @ [NL] @ str ''foo: bar'' @ [NL] @ str ''---'' @ [NL] @ str ''# Hello World'' @ [NL, NL] @ str ''text'') =
   Some (str ''---'' @ [NL] @ str ''title: Hello World'' @ [NL] @ str ''foo: bar'' @ [NL] @ str ''---'' @ [NL] @
         str ''# Hello World'' @ [NL, NL] @ str ''text'')"
  by code_simp

lemma example_already_set:
  "add_title cap [str ''docs'', str ''x.md'']
     (str ''---'' @ [NL] @ str ''title: Already Set'' @ [NL] @ str ''---'' @ [NL] @ str ''text'') = None"
  by code_simp

lemma example_quote:
  "fix_title (str ''title: Part One: The Beginning'') =
     Some (str ''title: '' @ [DQUOTE] @ str ''Part One: The Beginning'' @ [DQUOTE])"
  by code_simp

lemma example_already_quoted:
  "fix_title (str ''title: '' @ [DQUOTE] @ str ''Already: Quoted'' @ [DQUOTE]) = None"
  by code_simp

text \<open>
  The Quoter's pattern at its edges: a colon that ends the value, or a value that ends
  with a quote, does not match; after two whitespace characters the second one can
  stand for the first character of the pattern, so a value that starts with the colon
  matches; the whitespace before the value is not kept.
\<close>

lemma example_pattern_edges:
  "quote_line (str ''title: A:'') = None"
  "quote_line (str ''title: Say: '' @ [DQUOTE] @ str ''hi'' @ [DQUOTE]) = None"
  "quote_line (str ''title: :A'') = None"
  "quote_line (str ''title:  :A'') = Some (str ''title: '' @ [DQUOTE] @ str '':A'' @ [DQUOTE])"
  "quote_line (str ''title:   A: B'') = Some (str ''title: '' @ [DQUOTE] @ str ''A: B'' @ [DQUOTE])"
  "quote_line (str ''Title: A: B'') = None"
  by code_simp+

text \<open>
  Whitespace beyond ASCII counts as whitespace everywhere: a no-break space (U+00A0)
  after \<^verbatim>\<open>title:\<close> or after \<^verbatim>\<open>#\<close>, an ideographic space (U+3000) around a
  delimiter, a next-line character (U+0085) at the head of the body.
\<close>

lemma example_unicode_whitespace:
  "quote_line (str ''title:'' @ [0xA0] @ str ''A: B'') =
     Some (str ''title: '' @ [DQUOTE] @ str ''A: B'' @ [DQUOTE])"
  "extract_h1 (str ''#'' @ [0xA0] @ str ''Real'' @ [0x2003, NL] @ str ''# Second'') = Some (str ''Real'')"
  "extract_frontmatter (str ''---'' @ [NL] @ str ''a: b'' @ [NL] @ [0x3000] @ str ''---'' @ [0xA0, NL] @
       str ''body'' @ [NL] @ str ''---'' @ [NL] @ str ''rest'') =
     (str ''a: b'', str ''body'' @ [NL] @ str ''---'' @ [NL] @ str ''rest'')"
  "lstrip ([0x85, NL, 0x2028] @ str ''text'') = str ''text''"
  by code_simp+

text \<open>
  A word with a character beyond ASCII is capitalised by the parameter; a word of
  ASCII characters is not.
\<close>

lemma example_capitalize:
  "capitalize cap ([0xDF] @ str ''eta'') = cap ([0xDF] @ str ''eta'')"
  "capitalize cap (str ''myCool'') = str ''Mycool''"
  by code_simp+

section \<open>Splitting and joining\<close>

lemma split_on_not_Nil [simp]: "split_on sep s \<noteq> []"
  by (induction s) (simp_all add: Let_def)

lemma split_on_append:
  "sep c \<Longrightarrow> split_on sep (a @ c # b) = split_on sep a @ split_on sep b"
proof (induction a)
  case Nil
  then show ?case by simp
next
  case (Cons x a)
  then show ?case by (simp add: Let_def)
qed

lemma split_on_no_sep: "\<forall>c \<in> set s. \<not> sep c \<Longrightarrow> split_on sep s = [s]"
  by (induction s) (simp_all add: Let_def)

lemma split_on_pieces_all: "\<forall>l \<in> set (split_on sep s). \<forall>c \<in> set l. \<not> sep c"
proof (induction s)
  case Nil
  then show ?case by simp
next
  case (Cons x s)
  obtain h t where ht: "split_on sep s = h # t"
    by (cases "split_on sep s") (use split_on_not_Nil in auto)
  with Cons show ?case by (auto simp: Let_def)
qed

lemma split_on_pieces: "l \<in> set (split_on sep s) \<Longrightarrow> c \<in> set l \<Longrightarrow> \<not> sep c"
  using split_on_pieces_all by blast

lemma join_Cons: "join sep (x # xs) = (if xs = [] then x else x @ sep @ join sep xs)"
  by (cases xs) simp_all

lemma join_append:
  "xs \<noteq> [] \<Longrightarrow> ys \<noteq> [] \<Longrightarrow> join sep (xs @ ys) = join sep xs @ sep @ join sep ys"
  by (induction xs) (auto simp: join_Cons)

lemma join_split_on: "join [c] (split_on (\<lambda>x. x = c) s) = s"
proof (induction s)
  case Nil
  then show ?case by simp
next
  case (Cons x s)
  have ne: "split_on (\<lambda>x. x = c) s \<noteq> []" by simp
  then obtain h t where ht: "split_on (\<lambda>x. x = c) s = h # t" by (cases "split_on (\<lambda>x. x = c) s") auto
  with Cons show ?case by (auto simp: Let_def join_Cons split: if_splits)
qed

lemma split_on_join:
  "xs \<noteq> [] \<Longrightarrow> \<forall>l \<in> set xs. \<forall>x \<in> set l. x \<noteq> c \<Longrightarrow> split_on (\<lambda>x. x = c) (join [c] xs) = xs"
proof (induction xs)
  case Nil
  then show ?case by simp
next
  case (Cons l xs)
  show ?case
  proof (cases "xs = []")
    case True
    with Cons.prems show ?thesis by (simp add: split_on_no_sep)
  next
    case False
    with Cons have "split_on (\<lambda>x. x = c) (join [c] xs) = xs" by simp
    moreover have "split_on (\<lambda>x. x = c) l = [l]" using Cons.prems by (simp add: split_on_no_sep)
    ultimately show ?thesis using False by (simp add: join_Cons split_on_append)
  qed
qed

lemma split_nl_not_Nil [simp]: "split_nl s \<noteq> []"
  by (simp add: split_nl_def)

lemma join_split_nl [simp]: "join [NL] (split_nl s) = s"
  by (simp add: split_nl_def join_split_on)

lemma split_nl_append: "split_nl (a @ NL # b) = split_nl a @ split_nl b"
  by (simp add: split_nl_def split_on_append)

lemma split_nl_no_NL: "l \<in> set (split_nl s) \<Longrightarrow> NL \<notin> set l"
  unfolding split_nl_def using split_on_pieces[of l "\<lambda>c. c = NL" s NL] by blast

lemma split_nl_join:
  "xs \<noteq> [] \<Longrightarrow> \<forall>l \<in> set xs. NL \<notin> set l \<Longrightarrow> split_nl (join [NL] xs) = xs"
  unfolding split_nl_def by (rule split_on_join) auto

lemma split_nl_frontmatter:
  "has_frontmatter c \<Longrightarrow> \<exists>r. c = str ''---'' @ NL # r \<and> split_nl c = str ''---'' # split_nl r"
proof -
  assume "has_frontmatter c"
  then obtain r where c: "c = (str ''---'' @ [NL]) @ r"
    unfolding has_frontmatter_def prefix_def by blast
  then have "c = str ''---'' @ NL # r" by simp
  moreover from this have "split_nl c = split_nl (str ''---'') @ split_nl r"
    by (simp only: split_nl_append)
  moreover have "split_nl (str ''---'') = [str ''---'']" by (simp add: split_nl_def Let_def)
  ultimately show ?thesis by auto
qed

lemma find_end_Some:
  "find_end k xs = Some i \<Longrightarrow>
     k \<le> i \<and> i - k < length xs \<and> strip (xs ! (i - k)) = str ''---'' \<and>
     (\<forall>j < i - k. strip (xs ! j) \<noteq> str ''---'')"
proof (induction xs arbitrary: k)
  case Nil
  then show ?case by simp
next
  case (Cons x xs)
  show ?case
  proof (cases "strip x = str ''---''")
    case True
    with Cons.prems show ?thesis by simp
  next
    case False
    with Cons.prems have "find_end (Suc k) xs = Some i" by simp
    from Cons.IH[OF this]
    have ih: "Suc k \<le> i" "i - Suc k < length xs" "strip (xs ! (i - Suc k)) = str ''---''"
      "\<forall>j < i - Suc k. strip (xs ! j) \<noteq> str ''---''" by auto
    from ih(1) have d: "i - k = Suc (i - Suc k)" by simp
    have "\<forall>j < i - k. strip ((x # xs) ! j) \<noteq> str ''---''"
    proof (intro allI impI)
      fix j assume "j < i - k"
      then show "strip ((x # xs) ! j) \<noteq> str ''---''"
        using False ih(4) d by (cases j) auto
    qed
    with ih d show ?thesis by simp
  qed
qed

lemma find_end_first:
  "j < length xs \<Longrightarrow> strip (xs ! j) = str ''---'' \<Longrightarrow> \<forall>j' < j. strip (xs ! j') \<noteq> str ''---'' \<Longrightarrow>
     find_end k xs = Some (k + j)"
proof (induction xs arbitrary: k j)
  case Nil
  then show ?case by simp
next
  case (Cons x xs)
  show ?case
  proof (cases j)
    case 0
    with Cons.prems show ?thesis by simp
  next
    case (Suc j')
    with Cons.prems have "strip x \<noteq> str ''---''" by auto
    moreover have "find_end (Suc k) xs = Some (Suc k + j')"
      using Cons.prems Suc by (intro Cons.IH) auto
    ultimately show ?thesis using Suc by simp
  qed
qed

lemma find_end_None: "find_end k xs = None \<longleftrightarrow> (\<forall>l \<in> set xs. strip l \<noteq> str ''---'')"
  by (induction xs arbitrary: k) auto

lemma extract_frontmatter_at:
  assumes fm: "has_frontmatter c" and i: "1 \<le> i" "i < length (split_nl c)"
    and close: "strip (split_nl c ! i) = str ''---''"
    and first: "\<forall>j. 1 \<le> j \<and> j < i \<longrightarrow> strip (split_nl c ! j) \<noteq> str ''---''"
  shows "extract_frontmatter c =
           (join [NL] (slice 1 i (split_nl c)), join [NL] (drop (i + 1) (split_nl c)))"
proof -
  let ?xs = "drop 1 (split_nl c)"
  have "i - 1 < length ?xs" using i by simp
  moreover have "strip (?xs ! (i - 1)) = str ''---''" using i close by simp
  moreover have "\<forall>j' < i - 1. strip (?xs ! j') \<noteq> str ''---''"
  proof (intro allI impI)
    fix j' assume "j' < i - 1"
    then have "1 \<le> Suc j' \<and> Suc j' < i" by auto
    with first have "strip (split_nl c ! Suc j') \<noteq> str ''---''" by blast
    then show "strip (?xs ! j') \<noteq> str ''---''" using i \<open>j' < i - 1\<close> by simp
  qed
  ultimately have "find_end 1 ?xs = Some (1 + (i - 1))" by (rule find_end_first)
  then have "find_end 1 ?xs = Some i" using i by simp
  with fm show ?thesis by (simp add: extract_frontmatter_def Let_def)
qed

lemma strip_delim: "strip (str ''---'') = str ''---''"
  by (simp add: strip_def lstrip_def rstrip_def is_space_def whitespace_def)

section \<open>The Frontmatter Splitter\<close>

text \<open>
  Claim C6. The closing delimiter of a document that begins with the opening delimiter
  is the first later line whose text, once \<^verbatim>\<open>strip()\<close> has removed the whitespace
  around it, is \<^verbatim>\<open>---\<close>: the frontmatter is the lines strictly between the two
  delimiters and the body is everything after the closing one. (The claim as written
  asks for a line that is exactly \<^verbatim>\<open>---\<close>; the code compares the stripped line.)
\<close>

theorem closing_delimiter_is_first_stripped_match:
  assumes "has_frontmatter c" and "1 \<le> i" and "i < length (split_nl c)"
    and "strip (split_nl c ! i) = str ''---''"
    and "\<forall>j. 1 \<le> j \<and> j < i \<longrightarrow> strip (split_nl c ! j) \<noteq> str ''---''"
  shows "extract_frontmatter c =
           (join [NL] (slice 1 i (split_nl c)), join [NL] (drop (i + 1) (split_nl c)))"
  using assms by (rule extract_frontmatter_at)

theorem closing_delimiter_is_first_stripped_match_witness:
  "has_frontmatter (str ''---'' @ [NL] @ str ''a: b'' @ [NL] @ str ''  ---  '' @ [NL] @ str ''body'') \<and>
   extract_frontmatter (str ''---'' @ [NL] @ str ''a: b'' @ [NL] @ str ''  ---  '' @ [NL] @ str ''body'') =
     (str ''a: b'', str ''body'')"
proof -
  let ?c = "str ''---'' @ [NL] @ str ''a: b'' @ [NL] @ str ''  ---  '' @ [NL] @ str ''body''"
  have h1: "has_frontmatter ?c" by code_simp
  have h2: "(1::nat) \<le> 2" by simp
  have h3: "2 < length (split_nl ?c)" by code_simp
  have h4: "strip (split_nl ?c ! 2) = str ''---''" by code_simp
  have l1: "strip (split_nl ?c ! 1) \<noteq> str ''---''" by code_simp
  have h5: "\<forall>j. 1 \<le> j \<and> j < 2 \<longrightarrow> strip (split_nl ?c ! j) \<noteq> str ''---''"
  proof (intro allI impI)
    fix j :: nat assume "1 \<le> j \<and> j < 2"
    then have "j = 1" by simp
    with l1 show "strip (split_nl ?c ! j) \<noteq> str ''---''" by simp
  qed
  have r1: "join [NL] (slice 1 2 (split_nl ?c)) = str ''a: b''" by code_simp
  have r2: "join [NL] (drop (2 + 1) (split_nl ?c)) = str ''body''" by code_simp
  from closing_delimiter_is_first_stripped_match[OF h1 h2 h3 h4 h5] r1 r2 h1
  show ?thesis by simp
qed

text \<open>
  The claim as written fails: the third line below is \<^verbatim>\<open>---\<close> between blanks, it is
  not the string \<^verbatim>\<open>---\<close>, and it closes the block although an exact delimiter line
  follows further down.
\<close>

theorem padded_delimiter_closes_counterexample:
  "has_frontmatter (str ''---'' @ [NL] @ str ''a: b'' @ [NL] @ str ''  ---  '' @ [NL] @ str ''body'' @ [NL] @
      str ''---'' @ [NL] @ str ''rest'') \<and>
   split_nl (str ''---'' @ [NL] @ str ''a: b'' @ [NL] @ str ''  ---  '' @ [NL] @ str ''body'' @ [NL] @
      str ''---'' @ [NL] @ str ''rest'') ! 2 = str ''  ---  '' \<and>
   extract_frontmatter (str ''---'' @ [NL] @ str ''a: b'' @ [NL] @ str ''  ---  '' @ [NL] @ str ''body'' @ [NL] @
      str ''---'' @ [NL] @ str ''rest'') = (str ''a: b'', str ''body'' @ [NL] @ str ''---'' @ [NL] @ str ''rest'')"
  by code_simp

text \<open>
  Claim C10. Round trip of the splitter: when the text starts with the opening
  delimiter, the closing delimiter (the first later line that strips to \<^verbatim>\<open>---\<close>) is
  exactly \<^verbatim>\<open>---\<close>, at least one line stands between the two delimiters, and the
  closing delimiter is not the last line of the text (a newline follows it), then
  the opening delimiter, the frontmatter, the closing delimiter and the body, joined by
  newlines, give the text back.
\<close>

theorem splitter_round_trip:
  assumes fm: "has_frontmatter c" and i: "2 \<le> i" "i + 1 < length (split_nl c)"
    and close: "split_nl c ! i = str ''---''"
    and first: "\<forall>j. 1 \<le> j \<and> j < i \<longrightarrow> strip (split_nl c ! j) \<noteq> str ''---''"
  shows "str ''---'' @ [NL] @ fst (extract_frontmatter c) @ [NL] @ str ''---'' @ [NL] @
           snd (extract_frontmatter c) = c"
proof -
  let ?ls = "split_nl c"
  from split_nl_frontmatter[OF fm] obtain r where r: "?ls = str ''---'' # split_nl r" by blast
  have ex: "extract_frontmatter c = (join [NL] (slice 1 i ?ls), join [NL] (drop (i + 1) ?ls))"
    using fm i close first by (intro extract_frontmatter_at) (auto simp: strip_delim[simplified])
  have dec: "?ls = take i ?ls @ ?ls ! i # drop (i + 1) ?ls"
    using i by (simp add: id_take_nth_drop)
  have t: "take i ?ls = str ''---'' # slice 1 i ?ls"
    using i r by (cases i) (auto simp: slice_def)
  have ne1: "slice 1 i ?ls \<noteq> []" using i by (auto simp: slice_def)
  have ne2: "drop (i + 1) ?ls \<noteq> []" using i by simp
  have "c = join [NL] ?ls" by simp
  also have "\<dots> = join [NL] ((str ''---'' # slice 1 i ?ls) @ str ''---'' # drop (i + 1) ?ls)"
    using dec t close by simp
  also have "\<dots> = str ''---'' @ [NL] @ join [NL] (slice 1 i ?ls) @ [NL] @ str ''---'' @ [NL] @
      join [NL] (drop (i + 1) ?ls)"
    using ne1 ne2 by (simp add: join_Cons join_append)
  finally show ?thesis using ex by simp
qed

theorem splitter_round_trip_witness:
  "has_frontmatter (str ''---'' @ [NL] @ str ''a: b'' @ [NL] @ str ''---'' @ [NL] @ str ''body'') \<and>
   extract_frontmatter (str ''---'' @ [NL] @ str ''a: b'' @ [NL] @ str ''---'' @ [NL] @ str ''body'') =
     (str ''a: b'', str ''body'') \<and>
   str ''---'' @ [NL] @ fst (extract_frontmatter (str ''---'' @ [NL] @ str ''a: b'' @ [NL] @ str ''---'' @ [NL] @ str ''body''))
     @ [NL] @ str ''---'' @ [NL] @
     snd (extract_frontmatter (str ''---'' @ [NL] @ str ''a: b'' @ [NL] @ str ''---'' @ [NL] @ str ''body'')) =
   str ''---'' @ [NL] @ str ''a: b'' @ [NL] @ str ''---'' @ [NL] @ str ''body''"
proof -
  let ?c = "str ''---'' @ [NL] @ str ''a: b'' @ [NL] @ str ''---'' @ [NL] @ str ''body''"
  have h1: "has_frontmatter ?c" by code_simp
  have h2: "(2::nat) \<le> 2" by simp
  have h3: "2 + 1 < length (split_nl ?c)" by code_simp
  have h4: "split_nl ?c ! 2 = str ''---''" by code_simp
  have l1: "strip (split_nl ?c ! 1) \<noteq> str ''---''" by code_simp
  have h5: "\<forall>j. 1 \<le> j \<and> j < 2 \<longrightarrow> strip (split_nl ?c ! j) \<noteq> str ''---''"
  proof (intro allI impI)
    fix j :: nat assume "1 \<le> j \<and> j < 2"
    then have "j = 1" by simp
    with l1 show "strip (split_nl ?c ! j) \<noteq> str ''---''" by simp
  qed
  have e: "extract_frontmatter ?c = (str ''a: b'', str ''body'')" by code_simp
  from splitter_round_trip[OF h1 h2 h3 h4 h5] h1 e show ?thesis by simp
qed

text \<open>
  Without the last condition the round trip fails: here the closing delimiter ends the
  text, the body is empty, and the reassembled text has one newline more.
\<close>

theorem round_trip_unterminated_counterexample:
  "has_frontmatter (str ''---'' @ [NL] @ str ''a'' @ [NL] @ str ''---'') \<and>
   split_nl (str ''---'' @ [NL] @ str ''a'' @ [NL] @ str ''---'') = [str ''---'', str ''a'', str ''---''] \<and>
   str ''---'' @ [NL] @ fst (extract_frontmatter (str ''---'' @ [NL] @ str ''a'' @ [NL] @ str ''---'')) @ [NL] @
     str ''---'' @ [NL] @ snd (extract_frontmatter (str ''---'' @ [NL] @ str ''a'' @ [NL] @ str ''---''))
   \<noteq> str ''---'' @ [NL] @ str ''a'' @ [NL] @ str ''---''"
  by code_simp

section \<open>Lemmas on the Title Inserter\<close>

lemma hd_split_on_append:
  "\<forall>c \<in> set a. \<not> sep c \<Longrightarrow> hd (split_on sep (a @ b)) = a @ hd (split_on sep b)"
  by (induction a) (simp_all add: Let_def)

lemma rstrip_Cons: "\<not> is_space c \<Longrightarrow> rstrip (c # cs) = c # rstrip cs"
  by (simp add: rstrip_def dropWhile_append3)

lemma strip_Cons: "\<not> is_space c \<Longrightarrow> strip (c # cs) = c # rstrip cs"
  by (simp add: strip_def lstrip_def rstrip_Cons)

lemma lstrip_Cons: "\<not> is_space c \<Longrightarrow> lstrip (c # cs) = c # cs"
  by (simp add: lstrip_def)

lemma not_space_t: "\<not> is_space (ch CHR ''t'')"
  by (simp add: is_space_def whitespace_def)

lemma not_space_dash: "\<not> is_space DASH"
  by (simp add: is_space_def whitespace_def)

lemma strip_title_line: "strip (str ''title:'' @ x) \<noteq> str ''---''"
  by (simp add: strip_Cons not_space_t[simplified])

lemma search_title_prefix: "prefix (str ''title:'') s \<Longrightarrow> search_title s"
  by (cases s) (auto simp: search_title_def)

lemma prefix_join: "xs \<noteq> [] \<Longrightarrow> prefix (hd xs) (join sep xs)"
  by (cases xs) (auto simp: join_Cons)

lemma extract_frontmatter_titled:
  fixes X B :: ustr
  defines "c' \<equiv> (str ''---'') @ NL # (str ''title:'' @ X) @ NL # str ''---'' @ NL # B"
  shows "search_title (fst (extract_frontmatter c'))"
proof -
  let ?L = "split_nl (str ''title:'' @ X)"
  let ?R = "drop 1 (split_nl c')"
  have fm: "has_frontmatter c'" by (simp add: has_frontmatter_def c'_def)
  have "split_nl c' = split_nl (str ''---'') @ split_nl ((str ''title:'' @ X) @ NL # str ''---'' @ NL # B)"
    unfolding c'_def by (rule split_nl_append)
  also have "split_nl ((str ''title:'' @ X) @ NL # str ''---'' @ NL # B) = ?L @ split_nl (str ''---'' @ NL # B)"
    by (rule split_nl_append)
  also have "split_nl (str ''---'' @ NL # B) = split_nl (str ''---'') @ split_nl B"
    by (rule split_nl_append)
  also have "split_nl (str ''---'') = [str ''---'']" by (simp add: split_nl_def Let_def)
  finally have lines: "split_nl c' = str ''---'' # ?L @ str ''---'' # split_nl B" by simp
  then have R: "?R = ?L @ str ''---'' # split_nl B" by simp
  have "hd ?L = str ''title:'' @ hd (split_nl X)"
    unfolding split_nl_def by (rule hd_split_on_append) simp
  then have hdL: "prefix (str ''title:'') (hd ?L)" by simp
  have hdR: "hd ?R = hd ?L" "?R \<noteq> []" using R by simp_all
  have "str ''---'' \<in> set ?R" using R by simp
  then have "\<exists>l \<in> set ?R. strip l = str ''---''" using strip_delim by blast
  then have "find_end 1 ?R \<noteq> None" by (simp add: find_end_None)
  then obtain e where e: "find_end 1 ?R = Some e" by blast
  from find_end_Some[OF e] have e1: "1 \<le> e" "strip (?R ! (e - 1)) = str ''---''" by auto
  have "e - 1 \<noteq> 0"
  proof
    assume "e - 1 = 0"
    with e1 hdR have "strip (hd ?L) = str ''---''" by (simp add: hd_conv_nth)
    moreover from hdL obtain x where "hd ?L = str ''title:'' @ x" unfolding prefix_def by blast
    ultimately show False using strip_title_line by simp
  qed
  then have "take (e - 1) ?R \<noteq> []" "hd (take (e - 1) ?R) = hd ?L" using hdR by auto
  moreover have "slice 1 e (split_nl c') = take (e - 1) ?R" by (simp add: slice_def)
  ultimately have "prefix (hd ?L) (join [NL] (slice 1 e (split_nl c')))"
    using prefix_join[of "take (e - 1) ?R" "[NL]"] by simp
  with hdL have "prefix (str ''title:'') (join [NL] (slice 1 e (split_nl c')))"
    using prefix_order.trans by blast
  then have "search_title (join [NL] (slice 1 e (split_nl c')))" by (rule search_title_prefix)
  with fm e show ?thesis by (simp add: extract_frontmatter_def Let_def)
qed

lemma add_title_twice: "add_title cap p c = Some c' \<Longrightarrow> add_title cap p c' = None"
proof -
  assume a: "add_title cap p c = Some c'"
  obtain fm body where ex: "extract_frontmatter c = (fm, body)" by (cases "extract_frontmatter c")
  let ?t = "resolve_title cap p c"
  from a ex have "c' = str ''---'' @ NL # (str ''title:'' @ (if fm \<noteq> [] then str '' '' @ ?t @ [NL] @ fm else (str '' '') @ ?t))
      @ NL # str ''---'' @ NL # lstrip body"
    by (auto simp: add_title_def Let_def split: if_splits)
  then have "search_title (fst (extract_frontmatter c'))"
    using extract_frontmatter_titled by simp
  then show ?thesis by (cases "extract_frontmatter c'") (simp add: add_title_def Let_def)
qed

lemma add_title_to_file_write:
  "read_text files p = Inr c \<Longrightarrow> add_title cap p c = Some c' \<Longrightarrow>
     add_title_to_file cap p files = (Inr (), files(p \<mapsto> Text c'))"
  by (simp add: add_title_to_file_def write_text_def)

lemma add_title_to_file_skip:
  "read_text files p = Inr c \<Longrightarrow> add_title cap p c = None \<Longrightarrow>
     add_title_to_file cap p files = (Inr (), files)"
  by (simp add: add_title_to_file_def)

lemma add_title_to_file_raise:
  "read_text files p = Inl e \<Longrightarrow> add_title_to_file cap p files = (Inl e, files)"
  by (simp add: add_title_to_file_def)

lemma extract_frontmatter_unclosed:
  assumes fm: "has_frontmatter c"
    and open_: "\<forall>j. 1 \<le> j \<and> j < length (split_nl c) \<longrightarrow> strip (split_nl c ! j) \<noteq> str ''---''"
  shows "extract_frontmatter c = ([], c)"
proof -
  have "\<forall>l \<in> set (drop 1 (split_nl c)). strip l \<noteq> str ''---''"
  proof
    fix l assume "l \<in> set (drop 1 (split_nl c))"
    then obtain k where "k < length (drop 1 (split_nl c))" "l = drop 1 (split_nl c) ! k"
      by (auto simp: in_set_conv_nth)
    then have "1 \<le> Suc k \<and> Suc k < length (split_nl c)" "l = split_nl c ! Suc k" by auto
    with open_ show "strip l \<noteq> str ''---''" by blast
  qed
  then have "find_end 1 (drop 1 (split_nl c)) = None" by (simp add: find_end_None)
  with fm show ?thesis by (simp add: extract_frontmatter_def Let_def)
qed

lemma add_title_unclosed:
  assumes fm: "has_frontmatter c"
    and open_: "\<forall>j. 1 \<le> j \<and> j < length (split_nl c) \<longrightarrow> strip (split_nl c ! j) \<noteq> str ''---''"
  shows "add_title cap p c =
           Some (str ''---'' @ [NL] @ str ''title: '' @ resolve_title cap p c @ [NL] @ str ''---'' @ [NL] @ c)"
proof -
  have ex: "extract_frontmatter c = ([], c)" using fm open_ by (rule extract_frontmatter_unclosed)
  from fm obtain r where "c = DASH # r" unfolding has_frontmatter_def prefix_def by auto
  then have "lstrip c = c" by (simp add: lstrip_Cons not_space_dash)
  with ex show ?thesis by (simp add: add_title_def Let_def search_title_def)
qed

section \<open>The Title Inserter\<close>

text \<open>
  Claim C8. The Title Inserter is idempotent: running \<^verbatim>\<open>add_title_to_file\<close> on the
  file system that a first run has left gives the same outcome and changes nothing,
  and whenever the file is readable after the first run, the second run takes the
  "title already exists" branch (\<^const>\<open>add_title\<close> is \<open>None\<close>), which writes nothing.
\<close>

theorem title_inserter_idempotent:
  "add_title_to_file cap p files = (r, files') \<Longrightarrow>
     add_title_to_file cap p files' = (r, files') \<and>
     (\<forall>c'. read_text files' p = Inr c' \<longrightarrow> add_title cap p c' = None)"
proof (cases "read_text files p")
  case (Inl e)
  assume "add_title_to_file cap p files = (r, files')"
  with Inl show ?thesis by (auto simp: add_title_to_file_def)
next
  case (Inr c)
  assume a: "add_title_to_file cap p files = (r, files')"
  show ?thesis
  proof (cases "add_title cap p c")
    case None
    with a Inr show ?thesis by (auto simp: add_title_to_file_def)
  next
    case (Some c')
    with a Inr have r: "r = Inr ()" "files' = write_text files p c'" by (auto simp: add_title_to_file_def)
    then have rd: "read_text files' p = Inr c'" by (simp add: read_text_def write_text_def)
    from add_title_twice[OF Some] rd r show ?thesis by (simp add: add_title_to_file_def)
  qed
qed

theorem title_inserter_idempotent_witness:
  "add_title_to_file (\<lambda>w. w) [str ''docs'', str ''x.md'']
     (Map.empty([str ''docs'', str ''x.md''] \<mapsto>
        Text (str ''---'' @ [NL] @ str ''foo: bar'' @ [NL] @ str ''---'' @ [NL] @ str ''# Hello World'' @ [NL, NL] @ str ''text''))) =
     (Inr (), Map.empty([str ''docs'', str ''x.md''] \<mapsto>
        Text (str ''---'' @ [NL] @ str ''title: Hello World'' @ [NL] @ str ''foo: bar'' @ [NL] @ str ''---'' @ [NL] @
              str ''# Hello World'' @ [NL, NL] @ str ''text''))) \<and>
   add_title_to_file (\<lambda>w. w) [str ''docs'', str ''x.md'']
     (Map.empty([str ''docs'', str ''x.md''] \<mapsto>
        Text (str ''---'' @ [NL] @ str ''title: Hello World'' @ [NL] @ str ''foo: bar'' @ [NL] @ str ''---'' @ [NL] @
              str ''# Hello World'' @ [NL, NL] @ str ''text''))) =
     (Inr (), Map.empty([str ''docs'', str ''x.md''] \<mapsto>
        Text (str ''---'' @ [NL] @ str ''title: Hello World'' @ [NL] @ str ''foo: bar'' @ [NL] @ str ''---'' @ [NL] @
              str ''# Hello World'' @ [NL, NL] @ str ''text''))) \<and>
   add_title (\<lambda>w. w) [str ''docs'', str ''x.md'']
     (str ''---'' @ [NL] @ str ''title: Hello World'' @ [NL] @ str ''foo: bar'' @ [NL] @ str ''---'' @ [NL] @
      str ''# Hello World'' @ [NL, NL] @ str ''text'') = None"
proof -
  let ?p = "[str ''docs'', str ''x.md'']"
  let ?c0 = "str ''---'' @ [NL] @ str ''foo: bar'' @ [NL] @ str ''---'' @ [NL] @ str ''# Hello World'' @ [NL, NL] @ str ''text''"
  let ?c1 = "str ''---'' @ [NL] @ str ''title: Hello World'' @ [NL] @ str ''foo: bar'' @ [NL] @ str ''---'' @ [NL] @
             str ''# Hello World'' @ [NL, NL] @ str ''text''"
  let ?f0 = "Map.empty(?p \<mapsto> Text ?c0)"
  let ?f1 = "Map.empty(?p \<mapsto> Text ?c1)"
  have ev: "add_title (\<lambda>w. w) ?p ?c0 = Some ?c1" by code_simp
  have rd0: "read_text ?f0 ?p = Inr ?c0" by (simp add: read_text_def)
  have rd1: "read_text ?f1 ?p = Inr ?c1" by (simp add: read_text_def)
  have run: "add_title_to_file (\<lambda>w. w) ?p ?f0 = (Inr (), ?f1)"
    using add_title_to_file_write[OF rd0 ev] by simp
  from title_inserter_idempotent[OF run] rd1
  have "add_title_to_file (\<lambda>w. w) ?p ?f1 = (Inr (), ?f1)" "add_title (\<lambda>w. w) ?p ?c1 = None" by blast+
  with run show ?thesis by simp
qed

text \<open>
  Claim C7. A document that opens with the delimiter and has no closing delimiter (no
  later line strips to \<^verbatim>\<open>---\<close>) is taken as a document without frontmatter: the
  splitter returns the empty frontmatter and the whole text as the body, and the Title
  Inserter writes a new frontmatter block holding the resolved title in front of the
  whole original text, which follows unchanged. (The claim as written says that such a
  document is not rewritten.)
\<close>

theorem unclosed_frontmatter_gets_new_block:
  assumes "read_text files p = Inr c" and "has_frontmatter c"
    and "\<forall>j. 1 \<le> j \<and> j < length (split_nl c) \<longrightarrow> strip (split_nl c ! j) \<noteq> str ''---''"
  shows "extract_frontmatter c = ([], c) \<and>
         add_title_to_file cap p files =
           (Inr (), files(p \<mapsto> Text (str ''---'' @ [NL] @ str ''title: '' @ resolve_title cap p c @ [NL] @
                                       str ''---'' @ [NL] @ c)))"
proof
  show "extract_frontmatter c = ([], c)" using assms(2,3) by (rule extract_frontmatter_unclosed)
  show "add_title_to_file cap p files =
           (Inr (), files(p \<mapsto> Text (str ''---'' @ [NL] @ str ''title: '' @ resolve_title cap p c @ [NL] @
                                       str ''---'' @ [NL] @ c)))"
    using assms(1) add_title_unclosed[OF assms(2,3), of cap p] by (rule add_title_to_file_write)
qed

theorem unclosed_frontmatter_gets_new_block_witness:
  "has_frontmatter (str ''---'' @ [NL] @ str ''foo: bar'') \<and>
   extract_frontmatter (str ''---'' @ [NL] @ str ''foo: bar'') = ([], str ''---'' @ [NL] @ str ''foo: bar'') \<and>
   add_title_to_file (\<lambda>w. w) [str ''docs'', str ''my-page.md'']
     (Map.empty([str ''docs'', str ''my-page.md''] \<mapsto> Text (str ''---'' @ [NL] @ str ''foo: bar''))) =
     (Inr (), (Map.empty([str ''docs'', str ''my-page.md''] \<mapsto> Text (str ''---'' @ [NL] @ str ''foo: bar'')))
        ([str ''docs'', str ''my-page.md''] \<mapsto>
           Text (str ''---'' @ [NL] @ str ''title: My Page'' @ [NL] @ str ''---'' @ [NL] @ str ''---'' @ [NL] @ str ''foo: bar'')))"
proof -
  let ?p = "[str ''docs'', str ''my-page.md'']"
  let ?c = "str ''---'' @ [NL] @ str ''foo: bar''"
  let ?f = "Map.empty(?p \<mapsto> Text ?c)"
  have h1: "read_text ?f ?p = Inr ?c" by (simp add: read_text_def)
  have h2: "has_frontmatter ?c" by code_simp
  have len: "length (split_nl ?c) = 2" by code_simp
  have l1: "strip (split_nl ?c ! 1) \<noteq> str ''---''" by code_simp
  have h3: "\<forall>j. 1 \<le> j \<and> j < length (split_nl ?c) \<longrightarrow> strip (split_nl ?c ! j) \<noteq> str ''---''"
  proof (intro allI impI)
    fix j :: nat assume "1 \<le> j \<and> j < length (split_nl ?c)"
    with len have "j = 1" by simp
    with l1 show "strip (split_nl ?c ! j) \<noteq> str ''---''" by simp
  qed
  have t: "resolve_title (\<lambda>w. w) ?p ?c = str ''My Page''" by code_simp
  from unclosed_frontmatter_gets_new_block[OF h1 h2 h3] t h2 show ?thesis by simp
qed

text \<open>
  The claim as written fails: the text below opens with the delimiter and never closes
  it, and after the run the file holds a new frontmatter block followed by the old text.
\<close>

theorem unclosed_frontmatter_rewritten_counterexample:
  "\<forall>cap.
     has_frontmatter (str ''---'' @ [NL] @ str ''foo: bar'') \<and>
     find_end 1 (drop 1 (split_nl (str ''---'' @ [NL] @ str ''foo: bar''))) = None \<and>
     snd (add_title_to_file cap [str ''docs'', str ''my-page.md'']
            (Map.empty([str ''docs'', str ''my-page.md''] \<mapsto> Text (str ''---'' @ [NL] @ str ''foo: bar''))))
       [str ''docs'', str ''my-page.md''] =
     Some (Text (str ''---'' @ [NL] @ str ''title: My Page'' @ [NL] @ str ''---'' @ [NL] @ str ''---'' @ [NL] @ str ''foo: bar'')) \<and>
     Text (str ''---'' @ [NL] @ str ''title: My Page'' @ [NL] @ str ''---'' @ [NL] @ str ''---'' @ [NL] @ str ''foo: bar'')
       \<noteq> Text (str ''---'' @ [NL] @ str ''foo: bar'')"
proof
  fix cap :: "ustr \<Rightarrow> ustr"
  show "has_frontmatter (str ''---'' @ [NL] @ str ''foo: bar'') \<and>
   find_end 1 (drop 1 (split_nl (str ''---'' @ [NL] @ str ''foo: bar''))) = None \<and>
   snd (add_title_to_file cap [str ''docs'', str ''my-page.md'']
          (Map.empty([str ''docs'', str ''my-page.md''] \<mapsto> Text (str ''---'' @ [NL] @ str ''foo: bar''))))
     [str ''docs'', str ''my-page.md''] =
   Some (Text (str ''---'' @ [NL] @ str ''title: My Page'' @ [NL] @ str ''---'' @ [NL] @ str ''---'' @ [NL] @ str ''foo: bar'')) \<and>
   Text (str ''---'' @ [NL] @ str ''title: My Page'' @ [NL] @ str ''---'' @ [NL] @ str ''---'' @ [NL] @ str ''foo: bar'')
     \<noteq> Text (str ''---'' @ [NL] @ str ''foo: bar'')"
    by code_simp
qed

section \<open>Lemmas on the generated title\<close>

lemma split_on_pieces_subset: "\<forall>l \<in> set (split_on sep s). set l \<subseteq> set s"
proof (induction s)
  case Nil
  then show ?case by simp
next
  case (Cons x s)
  obtain h t where ht: "split_on sep s = h # t"
    by (cases "split_on sep s") (use split_on_not_Nil in auto)
  with Cons show ?case by (auto simp: Let_def)
qed

lemma capitalize_ascii_words:
  assumes "list_all is_ascii b"
  shows "map (capitalize cap) (split_on sep b) = map capitalize_ascii (split_on sep b)"
proof (rule map_cong[OF refl])
  fix w assume "w \<in> set (split_on sep b)"
  with split_on_pieces_subset have "set w \<subseteq> set b" by blast
  with assms have "list_all is_ascii w" by (auto simp: list_all_iff)
  then show "capitalize cap w = capitalize_ascii w" by (simp add: capitalize_def)
qed

lemma join_words_title_chars:
  "join [BLANK] (map capitalize_ascii (split_on is_sep b)) = title_chars True b \<and>
   join [BLANK] (map ascii_lower (hd (split_on is_sep b)) # map capitalize_ascii (tl (split_on is_sep b)))
     = title_chars False b"
proof (induction b)
  case Nil
  then show ?case by (simp add: capitalize_ascii_def)
next
  case (Cons c b)
  obtain h t where ht: "split_on is_sep b = h # t"
    by (cases "split_on is_sep b") (use split_on_not_Nil in auto)
  with Cons show ?case
    by (auto simp: Let_def join_Cons capitalize_ascii_def split: if_splits)
qed

lemma generate_title_chars:
  "list_all is_ascii (title_basename p) \<Longrightarrow>
     generate_title_from_path cap p = title_chars True (title_basename p)"
  by (simp add: generate_title_from_path_def Let_def capitalize_ascii_words join_words_title_chars)

lemma length_title_chars: "length (title_chars st b) = length b"
  by (induction b arbitrary: st) simp_all

lemma title_chars_nth:
  "i < length b \<Longrightarrow>
     title_chars st b ! i =
       (if is_sep (b ! i) then BLANK
        else if (i = 0 \<and> st) \<or> (0 < i \<and> is_sep (b ! (i - 1))) then ascii_upper (b ! i)
        else ascii_lower (b ! i))"
proof (induction b arbitrary: st i)
  case Nil
  then show ?case by simp
next
  case (Cons c b)
  show ?case
  proof (cases i)
    case 0
    then show ?thesis by simp
  next
    case (Suc k)
    with Cons.prems have k: "k < length b" by simp
    show ?thesis
    proof (cases k)
      case 0
      with Suc k Cons.IH[OF k] show ?thesis by simp
    next
      case (Suc m)
      with \<open>i = Suc k\<close> k Cons.IH[OF k] show ?thesis by simp
    qed
  qed
qed

section \<open>The Path-Based Title Generator\<close>

text \<open>
  Claim C3. For a base name of ASCII characters, every word of the generated title is
  capitalised as \<^verbatim>\<open>str.capitalize()\<close> does it: a character of the base name that is
  not a separator is upper-cased when it starts a word (it is the first character, or
  follows a separator) and lower-cased otherwise, so the capitals inside a word are
  lower-cased. (The claim as written says that the rest of a word is kept as it is.)
\<close>

theorem title_words_first_upper_rest_lower:
  assumes "list_all is_ascii (title_basename p)"
    and "i < length (title_basename p)" and "\<not> is_sep (title_basename p ! i)"
  shows "generate_title_from_path cap p ! i =
           (if i = 0 \<or> is_sep (title_basename p ! (i - 1)) then ascii_upper (title_basename p ! i)
            else ascii_lower (title_basename p ! i))"
  using assms by (cases i) (simp_all add: generate_title_chars title_chars_nth)

theorem title_words_first_upper_rest_lower_witness:
  "title_basename [str ''docs'', str ''myCool-page.md''] = str ''myCool-page'' \<and>
   list_all is_ascii (str ''myCool-page'') \<and>
   generate_title_from_path (\<lambda>w. w) [str ''docs'', str ''myCool-page.md''] ! 2 = ch CHR ''c'' \<and>
   generate_title_from_path (\<lambda>w. w) [str ''docs'', str ''myCool-page.md''] ! 7 = ch CHR ''P''"
proof -
  let ?p = "[str ''docs'', str ''myCool-page.md'']"
  have b: "title_basename ?p = str ''myCool-page''" by code_simp
  have a: "list_all is_ascii (title_basename ?p)" by code_simp
  have h2: "2 < length (title_basename ?p)" "\<not> is_sep (title_basename ?p ! 2)" by code_simp+
  have h7: "7 < length (title_basename ?p)" "\<not> is_sep (title_basename ?p ! 7)" by code_simp+
  have v2: "(if (2::nat) = 0 \<or> is_sep (title_basename ?p ! (2 - 1)) then ascii_upper (title_basename ?p ! 2)
             else ascii_lower (title_basename ?p ! 2)) = ch CHR ''c''" by code_simp
  have v7: "(if (7::nat) = 0 \<or> is_sep (title_basename ?p ! (7 - 1)) then ascii_upper (title_basename ?p ! 7)
             else ascii_lower (title_basename ?p ! 7)) = ch CHR ''P''" by code_simp
  from title_words_first_upper_rest_lower[OF a h2, of "\<lambda>w. w"]
    title_words_first_upper_rest_lower[OF a h7, of "\<lambda>w. w"] v2 v7 a b
  show ?thesis by simp
qed

text \<open>
  The claim as written fails on its own example: the capital inside \<^verbatim>\<open>myCool\<close> is
  lower-cased.
\<close>

theorem interior_capital_lowered_counterexample:
  "\<forall>cap. title_basename [str ''docs'', str ''myCool-page.md''] = str ''myCool-page'' \<and>
     generate_title_from_path cap [str ''docs'', str ''myCool-page.md''] = str ''Mycool Page'' \<and>
     generate_title_from_path cap [str ''docs'', str ''myCool-page.md''] \<noteq> str ''MyCool Page''"
proof
  fix cap :: "ustr \<Rightarrow> ustr"
  show "title_basename [str ''docs'', str ''myCool-page.md''] = str ''myCool-page'' \<and>
     generate_title_from_path cap [str ''docs'', str ''myCool-page.md''] = str ''Mycool Page'' \<and>
     generate_title_from_path cap [str ''docs'', str ''myCool-page.md''] \<noteq> str ''MyCool Page''"
    by code_simp
qed

text \<open>
  Claim C4. The empty words that consecutive separators produce are kept: for a base
  name of ASCII characters the title is as long as the base name and has a blank
  wherever the base name has a separator, so two separators in a row give two blanks
  in a row, and a separator at either end gives a blank at that end. (The claim as
  written says that empty words are dropped.)
\<close>

theorem title_keeps_one_blank_per_separator:
  assumes "list_all is_ascii (title_basename p)"
  shows "length (generate_title_from_path cap p) = length (title_basename p) \<and>
         (\<forall>i < length (title_basename p). is_sep (title_basename p ! i) \<longrightarrow>
              generate_title_from_path cap p ! i = BLANK)"
  using assms by (simp add: generate_title_chars title_chars_nth length_title_chars)

theorem title_keeps_one_blank_per_separator_witness:
  "title_basename [str ''docs'', str ''my--page.md''] = str ''my--page'' \<and>
   list_all is_ascii (str ''my--page'') \<and>
   length (generate_title_from_path (\<lambda>w. w) [str ''docs'', str ''my--page.md'']) = 8 \<and>
   generate_title_from_path (\<lambda>w. w) [str ''docs'', str ''my--page.md''] ! 2 = BLANK \<and>
   generate_title_from_path (\<lambda>w. w) [str ''docs'', str ''my--page.md''] ! 3 = BLANK"
proof -
  let ?p = "[str ''docs'', str ''my--page.md'']"
  have b: "title_basename ?p = str ''my--page''" by code_simp
  have a: "list_all is_ascii (title_basename ?p)" by code_simp
  have s: "is_sep (title_basename ?p ! 2)" "is_sep (title_basename ?p ! 3)" by code_simp+
  have n: "length (title_basename ?p) = 8" by code_simp
  from title_keeps_one_blank_per_separator[OF a, of "\<lambda>w. w"] n s a b show ?thesis by simp
qed

text \<open>
  The claim as written fails: a doubled separator gives a doubled blank, and
  separators at the ends give a leading and a trailing blank.
\<close>

theorem empty_words_kept_counterexample:
  "\<forall>cap. generate_title_from_path cap [str ''docs'', str ''my--page.md''] = str ''My  Page'' \<and>
     generate_title_from_path cap [str ''docs'', str ''_my-page-.md''] = str '' My Page ''"
proof
  fix cap :: "ustr \<Rightarrow> ustr"
  show "generate_title_from_path cap [str ''docs'', str ''my--page.md''] = str ''My  Page'' \<and>
     generate_title_from_path cap [str ''docs'', str ''_my-page-.md''] = str '' My Page ''"
    by code_simp
qed

section \<open>Lemmas on the H1 pattern\<close>

lemma rx_star_group_dot:
  "NL \<notin> set t \<Longrightarrow>
     rx_star_group rx_dot (\<lambda>g rest. if rx_end rest then Some g else None) g t = Some (g @ t)"
  by (induction t arbitrary: g) (auto simp: rx_end_def rx_dot_def)

lemma rx_plus_group_dot:
  "NL \<notin> set t \<Longrightarrow>
     rx_plus_group rx_dot (\<lambda>g rest. if rx_end rest then Some g else None) t =
       (if t = [] then None else Some t)"
  by (cases t) (auto simp: rx_plus_group_def rx_star_group_dot rx_dot_def)

lemma rx_star_space_group:
  "NL \<notin> set r \<Longrightarrow>
     rx_star is_space (rx_plus_group rx_dot (\<lambda>g rest. if rx_end rest then Some g else None)) r =
       (if r = [] then None
        else Some (if dropWhile is_space r = [] then [last r] else dropWhile is_space r))"
proof (induction r)
  case Nil
  then show ?case by (simp add: rx_plus_group_def)
next
  case (Cons c cs)
  then have nl: "NL \<notin> set (c # cs)" "NL \<notin> set cs" by auto
  show ?case
  proof (cases "is_space c")
    case True
    show ?thesis
    proof (cases "cs = []")
      case True
      with \<open>is_space c\<close> nl show ?thesis by (simp add: rx_plus_group_dot)
    next
      case False
      with \<open>is_space c\<close> Cons.IH[OF nl(2)] show ?thesis by simp
    qed
  next
    case False
    with nl show ?thesis by (simp add: rx_plus_group_dot)
  qed
qed

text \<open>
  The tail that both capturing patterns share, \<^verbatim>\<open>\s+(.+)$\<close>, on a text without a
  newline: the group is the text after the whitespace, or the last whitespace character
  when nothing else is left.
\<close>

lemma rx_value:
  "NL \<notin> set s \<Longrightarrow>
     rx_plus is_space (rx_plus_group rx_dot (\<lambda>g rest. if rx_end rest then Some g else None)) s =
       (case s of [] \<Rightarrow> None
        | w # r \<Rightarrow> if is_space w \<and> r \<noteq> []
                   then Some (if dropWhile is_space r = [] then [last r] else dropWhile is_space r)
                   else None)"
  by (cases s) (auto simp: rx_plus_def rx_one_def rx_star_space_group rx_plus_group_def)











section \<open>The title source\<close>




section \<open>Lemmas on the Title Quoter\<close>

lemma rx_star_Some:
  "rx_star p k s = Some r \<Longrightarrow> \<exists>n \<le> length s. k (drop n s) = Some r"
proof (induction s)
  case Nil
  then show ?case by simp
next
  case (Cons c cs)
  show ?case
  proof (cases "p c \<and> rx_star p k cs \<noteq> None")
    case True
    with Cons.prems have "rx_star p k cs = Some r" by auto
    from Cons.IH[OF this] obtain n where "n \<le> length cs" "k (drop n cs) = Some r" by blast
    then have "Suc n \<le> length (c # cs)" "k (drop (Suc n) (c # cs)) = Some r" by simp_all
    then show ?thesis by blast
  next
    case False
    with Cons.prems have "k (drop 0 (c # cs)) = Some r" by (auto split: if_splits)
    then show ?thesis by blast
  qed
qed

lemma rx_lit_title:
  "rx_lit (str ''title:'') k l = (if prefix (str ''title:'') l then k (drop 6 l) else None)"
proof -
  have "length (str ''title:'') = 6" by simp
  then show ?thesis unfolding rx_lit_def by (simp only:)
qed

lemma unquoted_match_colon:
  assumes "unquoted_match l"
  shows "prefix (str ''title:'') l \<and> (\<exists>x \<in> set (tl (drop 6 l)). \<not> is_space x)"
proof -
  let ?k5 = "rx_star rx_dot (rx_one not_quote (\<lambda>rest. if rx_end rest then Some () else None))"
  let ?k3 = "rx_star rx_dot (rx_lit (str '':'') ?k5)"
  let ?k2 = "rx_one not_quote ?k3"
  from assms have p: "prefix (str ''title:'') l" and m: "rx_plus is_space ?k2 (drop 6 l) = Some ()"
    by (auto simp: unquoted_match_def rx_lit_title[simplified] split: if_splits)
  from m obtain w s2 where s1: "drop 6 l = w # s2" and m2: "rx_star is_space ?k2 s2 = Some ()"
    by (auto simp: rx_plus_def rx_one_def split: list.splits if_splits)
  from rx_star_Some[OF m2] obtain n where m3: "?k2 (drop n s2) = Some ()" by blast
  then obtain c1 s3 where s3: "drop n s2 = c1 # s3" and m4: "?k3 s3 = Some ()"
    by (auto simp: rx_one_def split: list.splits if_splits)
  from rx_star_Some[OF m4] obtain m where "rx_lit (str '':'') ?k5 (drop m s3) = Some ()" by blast
  then have "prefix (str '':'') (drop m s3)" by (auto simp: rx_lit_def split: if_splits)
  then have "COLON \<in> set (drop m s3)" by (auto simp: prefix_def)
  then have "COLON \<in> set s3" by (rule in_set_dropD)
  then have "COLON \<in> set (drop n s2)" using s3 by simp
  then have "COLON \<in> set s2" by (rule in_set_dropD)
  moreover have "\<not> is_space COLON" by (simp add: is_space_def whitespace_def)
  ultimately show ?thesis using p s1 by auto
qed

lemma value_match_line:
  assumes "NL \<notin> set l" and "unquoted_match l"
  shows "value_match l = Some (dropWhile is_space (drop 6 l))"
proof -
  from unquoted_match_colon[OF assms(2)] obtain x where
    p: "prefix (str ''title:'') l" and x: "x \<in> set (tl (drop 6 l))" "\<not> is_space x" by blast
  from x obtain w r where d: "drop 6 l = w # r" by (cases "drop 6 l") auto
  with x have r: "r \<noteq> []" "dropWhile is_space r \<noteq> []" by auto
  have "NL \<notin> set (drop 6 l)" using assms(1) by (meson in_set_dropD)
  from rx_value[OF this] p d r
  have v: "value_match l = (if is_space w then Some (dropWhile is_space r) else None)"
    by (auto simp: value_match_def rx_lit_title[simplified])
  have "is_space w"
  proof -
    from assms(2) p d have "rx_plus is_space
      (rx_one not_quote (rx_star rx_dot (rx_lit (str '':'') (rx_star rx_dot (rx_one not_quote
           (\<lambda>rest. if rx_end rest then Some () else None)))))) (w # r) \<noteq> None"
      by (simp add: unquoted_match_def rx_lit_title[simplified])
    then show ?thesis by (auto simp: rx_plus_def rx_one_def split: if_splits)
  qed
  with v d show ?thesis by simp
qed

lemma quote_line_Some:
  assumes "NL \<notin> set l" and "quote_line l = Some n"
  shows "n = str ''title: '' @ [DQUOTE] @ dropWhile is_space (drop 6 l) @ [DQUOTE]"
proof -
  from assms(2) have u: "unquoted_match l" by (auto simp: quote_line_def split: if_splits)
  from value_match_line[OF assms(1) u] assms(2) show ?thesis
    by (auto simp: quote_line_def split: if_splits)
qed

lemma quote_line_quoted: "quote_line (str ''title: '' @ [DQUOTE] @ v) = None"
  by (simp add: quote_line_def unquoted_match_def rx_lit_title[simplified] rx_plus_def rx_one_def
      is_space_def whitespace_def not_quote_def)

lemma quote_loop_found:
  "i \<le> k \<Longrightarrow> k < length ls \<Longrightarrow> quote_line (ls ! k) = Some n \<Longrightarrow>
   \<forall>j. i \<le> j \<and> j < k \<longrightarrow> quote_line (ls ! j) = None \<Longrightarrow>
     quote_loop i ls = (ls[k := n], True)"
proof (induction i ls rule: quote_loop.induct)
  case (1 i lines)
  show ?case
  proof (cases "i = k")
    case True
    with "1.prems" show ?thesis by simp
  next
    case False
    with "1.prems" have lt: "i < k" "i < length lines" and none: "quote_line (lines ! i) = None" by auto
    have "quote_loop (Suc i) lines = (lines[k := n], True)"
      using lt none "1.prems" by (intro "1.IH") auto
    with lt none show ?thesis by simp
  qed
qed

lemma quote_loop_none:
  "\<forall>j. i \<le> j \<and> j < length ls \<longrightarrow> quote_line (ls ! j) = None \<Longrightarrow> quote_loop i ls = (ls, False)"
proof (induction i ls rule: quote_loop.induct)
  case (1 i lines)
  show ?case
  proof (cases "i < length lines")
    case True
    with "1.prems" have none: "quote_line (lines ! i) = None" by auto
    have "quote_loop (Suc i) lines = (lines, False)"
      using True none "1.prems" by (intro "1.IH") auto
    with True none show ?thesis by simp
  next
    case False
    then show ?thesis by simp
  qed
qed

lemma first_index:
  "\<exists>j < length ls. P (ls ! j) \<Longrightarrow> \<exists>k < length ls. P (ls ! k) \<and> (\<forall>j < k. \<not> P (ls ! j))"
proof -
  assume "\<exists>j < length ls. P (ls ! j)"
  then obtain j where j: "j < length ls \<and> P (ls ! j)" by blast
  let ?k = "LEAST j. j < length ls \<and> P (ls ! j)"
  from j have "?k < length ls \<and> P (ls ! ?k)" by (rule LeastI)
  moreover have "\<forall>j < ?k. \<not> P (ls ! j)"
  proof (intro allI impI)
    fix j assume lt: "j < ?k"
    then have "\<not> (j < length ls \<and> P (ls ! j))" by (rule not_less_Least)
    moreover from lt \<open>?k < length ls \<and> P (ls ! ?k)\<close> have "j < length ls" by simp
    ultimately show "\<not> P (ls ! j)" by blast
  qed
  ultimately show ?thesis by blast
qed


lemma quoted_no_NL:
  "NL \<notin> set l \<Longrightarrow> NL \<notin> set (str ''title: '' @ [DQUOTE] @ dropWhile is_space (drop 6 l) @ [DQUOTE])"
proof -
  assume "NL \<notin> set l"
  then have "NL \<notin> set (dropWhile is_space (drop 6 l))"
    by (meson in_set_dropD set_dropWhileD)
  then show ?thesis by simp
qed

lemma split_nl_update:
  assumes "k < length (split_nl c)" and "NL \<notin> set n"
  shows "split_nl (join [NL] ((split_nl c)[k := n])) = (split_nl c)[k := n]"
proof (rule split_nl_join)
  show "(split_nl c)[k := n] \<noteq> []" by simp
  show "\<forall>l \<in> set ((split_nl c)[k := n]). NL \<notin> set l"
  proof
    fix l assume "l \<in> set ((split_nl c)[k := n])"
    then have "l = n \<or> l \<in> set (split_nl c)" using set_update_subset_insert by fastforce
    with assms(2) show "NL \<notin> set l" using split_nl_no_NL by blast
  qed
qed

lemma fix_title_found:
  assumes "k < length (split_nl c)" and "quote_line (split_nl c ! k) = Some n"
    and "\<forall>j < k. quote_line (split_nl c ! j) = None"
  shows "fix_title c = Some (join [NL] ((split_nl c)[k := n]))"
proof -
  have "quote_loop 0 (split_nl c) = ((split_nl c)[k := n], True)"
    using assms by (intro quote_loop_found) auto
  then show ?thesis by (simp add: fix_title_def)
qed

lemma fix_title_none:
  assumes "\<forall>l \<in> set (split_nl c). quote_line l = None"
  shows "fix_title c = None"
proof -
  have "quote_loop 0 (split_nl c) = (split_nl c, False)"
    using assms by (intro quote_loop_none) auto
  then show ?thesis by (simp add: fix_title_def)
qed

lemma fix_title_changes:
  assumes "fix_title c = Some c'"
  shows "c' \<noteq> c"
proof -
  let ?ls = "split_nl c"
  have "\<exists>j < length ?ls. quote_line (?ls ! j) \<noteq> None"
  proof (rule ccontr)
    assume "\<not> ?thesis"
    then have "\<forall>l \<in> set ?ls. quote_line l = None" by (auto simp: in_set_conv_nth)
    from fix_title_none[OF this] assms show False by simp
  qed
  from first_index[of ?ls "\<lambda>l. quote_line l \<noteq> None", OF this]
  obtain k n where k: "k < length ?ls" "quote_line (?ls ! k) = Some n"
    "\<forall>j < k. quote_line (?ls ! j) = None" by auto
  from fix_title_found[OF k] assms have c': "c' = join [NL] (?ls[k := n])" by simp
  have nl: "NL \<notin> set (?ls ! k)" using k(1) by (intro split_nl_no_NL[of _ c]) simp
  from quote_line_Some[OF nl k(2)]
  have n: "n = str ''title: '' @ [DQUOTE] @ dropWhile is_space (drop 6 (?ls ! k)) @ [DQUOTE]" .
  then have "quote_line n = None" by (simp only: quote_line_quoted)
  with k(2) have neq: "n \<noteq> ?ls ! k" by auto
  have "NL \<notin> set n" unfolding n using nl by (rule quoted_no_NL)
  from split_nl_update[OF k(1) this] c' have "split_nl c' = ?ls[k := n]" by simp
  with neq k(1) have "split_nl c' \<noteq> ?ls" by (metis nth_list_update_eq)
  then show ?thesis by auto
qed

lemma fix_title_None_iff:
  "fix_title c = None \<longleftrightarrow> (\<forall>l \<in> set (split_nl c). quote_line l = None)"
proof
  assume none: "fix_title c = None"
  show "\<forall>l \<in> set (split_nl c). quote_line l = None"
  proof (rule ccontr)
    assume "\<not> ?thesis"
    then have "\<exists>j < length (split_nl c). quote_line (split_nl c ! j) \<noteq> None"
      by (metis in_set_conv_nth)
    from first_index[of "split_nl c" "\<lambda>l. quote_line l \<noteq> None", OF this]
    obtain k n where k: "k < length (split_nl c)" "quote_line (split_nl c ! k) = Some n"
      "\<forall>j < k. quote_line (split_nl c ! j) = None" by auto
    from fix_title_found[OF k] none show False by simp
  qed
next
  assume "\<forall>l \<in> set (split_nl c). quote_line l = None"
  then show "fix_title c = None" by (rule fix_title_none)
qed

lemma fix_title_in_file_write:
  "read_text files p = Inr c \<Longrightarrow> fix_title c = Some c' \<Longrightarrow>
     fix_title_in_file p files = (Inr (), files(p \<mapsto> Text c'))"
  by (simp add: fix_title_in_file_def write_text_def)

lemma fix_title_in_file_skip:
  "read_text files p = Inr c \<Longrightarrow> fix_title c = None \<Longrightarrow>
     fix_title_in_file p files = (Inr (), files)"
  by (simp add: fix_title_in_file_def)

lemma fix_title_in_file_raise:
  "read_text files p = Inl e \<Longrightarrow> fix_title_in_file p files = (Inl e, files)"
  by (simp add: fix_title_in_file_def)

lemma read_text_Inr: "read_text files p = Inr c \<longleftrightarrow> files p = Some (Text c)"
  by (auto simp: read_text_def split: option.splits file_content.splits)

lemma fix_title_first_match:
  assumes i: "i < length (split_nl c)" and m: "quote_line (split_nl c ! i) \<noteq> None"
    and first: "\<forall>j < i. quote_line (split_nl c ! j) = None"
  shows "let new_line = str ''title: '' @ [DQUOTE] @ dropWhile is_space (drop 6 (split_nl c ! i)) @ [DQUOTE];
             c' = join [NL] ((split_nl c)[i := new_line])
         in fix_title c = Some c' \<and> split_nl c' = (split_nl c)[i := new_line] \<and>
            ((\<forall>j < length (split_nl c). j \<noteq> i \<longrightarrow> quote_line (split_nl c ! j) = None)
               \<longrightarrow> fix_title c' = None)"
proof -
  let ?ls = "split_nl c"
  let ?n = "str ''title: '' @ [DQUOTE] @ dropWhile is_space (drop 6 (?ls ! i)) @ [DQUOTE]"
  let ?c' = "join [NL] (?ls[i := ?n])"
  from m obtain n where n: "quote_line (?ls ! i) = Some n" by blast
  have nl: "NL \<notin> set (?ls ! i)" using i by (intro split_nl_no_NL[of _ c]) simp
  from quote_line_Some[OF nl n] have n_eq: "n = ?n" .
  from fix_title_found[OF i n first] n_eq have a: "fix_title c = Some ?c'" by simp
  have "NL \<notin> set ?n" using nl by (rule quoted_no_NL)
  from split_nl_update[OF i this] have b: "split_nl ?c' = ?ls[i := ?n]" .
  have c: "fix_title ?c' = None"
    if others: "\<forall>j < length ?ls. j \<noteq> i \<longrightarrow> quote_line (?ls ! j) = None"
  proof (rule fix_title_none)
    show "\<forall>l \<in> set (split_nl ?c'). quote_line l = None"
    proof
      fix l assume "l \<in> set (split_nl ?c')"
      with b obtain j where j: "j < length ?ls" "l = ?ls[i := ?n] ! j"
        by (auto simp: in_set_conv_nth)
      show "quote_line l = None"
      proof (cases "j = i")
        case True
        with j have "l = ?n" by simp
        then show ?thesis by (simp only: quote_line_quoted)
      next
        case False
        with j others show ?thesis by simp
      qed
    qed
  qed
  from a b c show ?thesis by (simp only: Let_def) blast
qed

lemma rx_star_intro:
  "\<forall>c \<in> set xs. p c \<Longrightarrow> k ys \<noteq> None \<Longrightarrow> rx_star p k (xs @ ys) \<noteq> None"
proof (induction xs)
  case Nil
  then show ?case by (cases ys) (auto split: option.splits)
next
  case (Cons x xs)
  then show ?case by (auto split: option.splits)
qed

lemma rx_star_elim:
  "rx_star p k s \<noteq> None \<Longrightarrow> \<exists>xs ys. s = xs @ ys \<and> (\<forall>c \<in> set xs. p c) \<and> k ys \<noteq> None"
proof (induction s)
  case Nil
  then show ?case by simp
next
  case (Cons c cs)
  show ?case
  proof (cases "p c \<and> rx_star p k cs \<noteq> None")
    case True
    with Cons.IH obtain xs ys where "cs = xs @ ys" "\<forall>c \<in> set xs. p c" "k ys \<noteq> None" by blast
    with True have "c # cs = (c # xs) @ ys \<and> (\<forall>c \<in> set (c # xs). p c) \<and> k ys \<noteq> None" by simp
    then show ?thesis by blast
  next
    case False
    with Cons.prems have "k (c # cs) \<noteq> None" by (auto split: if_splits option.splits)
    then have "c # cs = [] @ (c # cs) \<and> (\<forall>c \<in> set []. p c) \<and> k (c # cs) \<noteq> None" by simp
    then show ?thesis by blast
  qed
qed

lemma space_not_quote: "is_space c \<Longrightarrow> not_quote c"
  by (auto simp: is_space_def whitespace_def not_quote_def)

lemma colon_not_space: "\<not> is_space COLON"
  by (simp add: is_space_def whitespace_def)

text \<open>
  The first pattern of the Quoter on a line without a newline, as a decomposition of
  the line: \<^verbatim>\<open>title:\<close>, whitespace, a character that is no quote, any text, a colon,
  any text, a last character that is no quote.
\<close>

lemma unquoted_match_iff:
  assumes nl: "NL \<notin> set l"
  shows "unquoted_match l \<longleftrightarrow>
           (\<exists>w sp c1 a b c2. l = str ''title:'' @ w # sp @ c1 # a @ COLON # b @ [c2] \<and>
              is_space w \<and> (\<forall>c \<in> set sp. is_space c) \<and> not_quote c1 \<and> not_quote c2)"
proof
  let ?k7 = "\<lambda>rest. if rx_end rest then Some () else None"
  let ?k6 = "rx_one not_quote ?k7"
  let ?k5 = "rx_star rx_dot ?k6"
  let ?k4 = "rx_lit (str '':'') ?k5"
  let ?k3 = "rx_star rx_dot ?k4"
  let ?k2 = "rx_one not_quote ?k3"
  assume "unquoted_match l"
  then have p: "prefix (str ''title:'') l" and m: "rx_plus is_space ?k2 (drop 6 l) \<noteq> None"
    by (auto simp: unquoted_match_def rx_lit_title[simplified] split: if_splits)
  from p have l: "l = str ''title:'' @ drop 6 l" by (auto simp: prefix_def)
  from m obtain w s2 where s1: "drop 6 l = w # s2" and w: "is_space w"
    and m2: "rx_star is_space ?k2 s2 \<noteq> None"
    by (auto simp: rx_plus_def rx_one_def split: list.splits if_splits)
  from rx_star_elim[OF m2] obtain sp y2 where
    s2: "s2 = sp @ y2" and sp: "\<forall>c \<in> set sp. is_space c" and m3: "?k2 y2 \<noteq> None" by blast
  from m3 obtain c1 s3 where y2: "y2 = c1 # s3" and c1: "not_quote c1" and m4: "?k3 s3 \<noteq> None"
    by (auto simp: rx_one_def split: list.splits if_splits)
  from rx_star_elim[OF m4] obtain a y4 where s3: "s3 = a @ y4" and m5: "?k4 y4 \<noteq> None" by blast
  from m5 obtain s5 where y4: "y4 = COLON # s5" and m6: "?k5 s5 \<noteq> None"
    by (auto simp: rx_lit_def prefix_def split: if_splits)
  from rx_star_elim[OF m6] obtain b y6 where s5: "s5 = b @ y6" and m7: "?k6 y6 \<noteq> None" by blast
  from m7 obtain c2 rest where y6: "y6 = c2 # rest" and c2: "not_quote c2" and e: "rx_end rest"
    by (auto simp: rx_one_def split: list.splits if_splits)
  have dec: "l = str ''title:'' @ w # sp @ c1 # a @ COLON # b @ c2 # rest"
    using l s1 s2 y2 s3 y4 s5 y6 by simp
  have "NL \<notin> set rest"
  proof
    assume "NL \<in> set rest"
    then have "NL \<in> set (str ''title:'' @ w # sp @ c1 # a @ COLON # b @ c2 # rest)" by simp
    with dec nl show False by simp
  qed
  with e have "rest = []" by (auto simp: rx_end_def)
  with dec w sp c1 c2
  show "\<exists>w sp c1 a b c2. l = str ''title:'' @ w # sp @ c1 # a @ COLON # b @ [c2] \<and>
          is_space w \<and> (\<forall>c \<in> set sp. is_space c) \<and> not_quote c1 \<and> not_quote c2"
    by blast
next
  let ?k7 = "\<lambda>rest. if rx_end rest then Some () else None"
  let ?k6 = "rx_one not_quote ?k7"
  let ?k5 = "rx_star rx_dot ?k6"
  let ?k4 = "rx_lit (str '':'') ?k5"
  let ?k3 = "rx_star rx_dot ?k4"
  let ?k2 = "rx_one not_quote ?k3"
  assume "\<exists>w sp c1 a b c2. l = str ''title:'' @ w # sp @ c1 # a @ COLON # b @ [c2] \<and>
            is_space w \<and> (\<forall>c \<in> set sp. is_space c) \<and> not_quote c1 \<and> not_quote c2"
  then obtain w sp c1 a b c2 where
    dec: "l = str ''title:'' @ w # sp @ c1 # a @ COLON # b @ [c2]"
    and w: "is_space w" and sp: "\<forall>c \<in> set sp. is_space c"
    and c1: "not_quote c1" and c2: "not_quote c2" by blast
  from nl dec have da: "\<forall>c \<in> set a. rx_dot c" and db: "\<forall>c \<in> set b. rx_dot c"
    by (auto simp: rx_dot_def)
  have k6: "?k6 [c2] \<noteq> None" using c2 by (simp add: rx_one_def rx_end_def)
  have "?k5 (b @ [c2]) \<noteq> None" using db k6 by (rule rx_star_intro)
  then have k4: "?k4 (COLON # b @ [c2]) \<noteq> None" by (simp add: rx_lit_def)
  have "?k3 (a @ COLON # b @ [c2]) \<noteq> None" using da k4 by (rule rx_star_intro)
  then have k2: "?k2 (c1 # a @ COLON # b @ [c2]) \<noteq> None" using c1 by (simp add: rx_one_def)
  have "rx_star is_space ?k2 (sp @ c1 # a @ COLON # b @ [c2]) \<noteq> None"
    using sp k2 by (rule rx_star_intro)
  then have "rx_plus is_space ?k2 (w # sp @ c1 # a @ COLON # b @ [c2]) \<noteq> None"
    using w by (simp add: rx_plus_def rx_one_def)
  moreover have "prefix (str ''title:'') l" "drop 6 l = w # sp @ c1 # a @ COLON # b @ [c2]"
    using dec by simp_all
  ultimately show "unquoted_match l" by (simp add: unquoted_match_def rx_lit_title[simplified])
qed

lemma quote_line_iff_unquoted:
  assumes nl: "NL \<notin> set l"
  shows "quote_line l \<noteq> None \<longleftrightarrow>
           unquoted_match l \<and> not_quote (hd (dropWhile is_space (drop 6 l)))"
proof (cases "unquoted_match l")
  case False
  then show ?thesis by (simp add: quote_line_def)
next
  case True
  from unquoted_match_colon[OF True] have "dropWhile is_space (drop 6 l) \<noteq> []"
    by (cases "drop 6 l") auto
  then obtain x xs where v: "dropWhile is_space (drop 6 l) = x # xs"
    by (cases "dropWhile is_space (drop 6 l)") auto
  with True value_match_line[OF nl True] show ?thesis
    by (auto simp: quote_line_def starts_with_quote_def not_quote_def)
qed


text \<open>
  The lines that the Quoter rewrites, in terms of the value (the text after
  \<^verbatim>\<open>title:\<close> and the whitespace that follows it): the value starts and ends with a
  character that is no quote, and it has a colon after its first and before its last
  character; when two or more whitespace characters precede the value, the colon may
  also be the first character of a value of at least two characters.
\<close>

lemma quote_line_iff:
  assumes nl: "NL \<notin> set l"
  shows "quote_line l \<noteq> None \<longleftrightarrow>
           (\<exists>ws v. l = str ''title:'' @ ws @ v \<and> ws \<noteq> [] \<and> (\<forall>c \<in> set ws. is_space c) \<and>
              v \<noteq> [] \<and> \<not> is_space (hd v) \<and> not_quote (hd v) \<and> not_quote (last v) \<and>
              (COLON \<in> set (butlast (tl v)) \<or>
               (hd v = COLON \<and> tl v \<noteq> [] \<and> 2 \<le> length ws)))"
    (is "?lhs \<longleftrightarrow> ?rhs")
proof
  assume ?lhs
  with quote_line_iff_unquoted[OF nl]
  have um: "unquoted_match l" and nq: "not_quote (hd (dropWhile is_space (drop 6 l)))" by simp_all
  from um unquoted_match_iff[OF nl] obtain w sp c1 a b c2 where
    dec: "l = str ''title:'' @ w # sp @ c1 # a @ COLON # b @ [c2]"
    and w: "is_space w" and sp: "\<forall>c \<in> set sp. is_space c"
    and c1: "not_quote c1" and c2: "not_quote c2" by blast
  define r where "r = w # sp @ c1 # a @ COLON # b @ [c2]"
  let ?ws = "takeWhile is_space r"
  let ?v = "dropWhile is_space r"
  have r: "drop 6 l = r" using dec by (simp add: r_def)
  have l: "l = str ''title:'' @ ?ws @ ?v" using dec by (simp add: r_def)
  have ws: "?ws \<noteq> []" "\<forall>c \<in> set ?ws. is_space c"
    using w by (auto simp: r_def dest: set_takeWhileD)
  have "COLON \<in> set r" by (simp add: r_def)
  then have v: "?v \<noteq> []" using colon_not_space by auto
  then have hv: "\<not> is_space (hd ?v)" by (rule hd_dropWhile)
  have "last (?ws @ ?v) = last ?v" using v by (rule last_appendR)
  moreover have "last r = c2" by (simp add: r_def)
  ultimately have lv: "last ?v = c2" by simp
  have colon: "COLON \<in> set (butlast (tl ?v)) \<or>
               (hd ?v = COLON \<and> tl ?v \<noteq> [] \<and> 2 \<le> length ?ws)"
  proof (cases "is_space c1")
    case False
    have "dropWhile is_space ((w # sp) @ c1 # a @ COLON # b @ [c2]) =
          dropWhile is_space (c1 # a @ COLON # b @ [c2])"
      using w sp by (intro dropWhile_append2) auto
    with False have "?v = c1 # a @ COLON # b @ [c2]" by (simp add: r_def)
    then have "butlast (tl ?v) = a @ COLON # b" by (simp add: butlast_append)
    then show ?thesis by simp
  next
    case True
    let ?z = "a @ COLON # b @ [c2]"
    have all: "\<And>x. x \<in> set (w # sp @ [c1]) \<Longrightarrow> is_space x" using w sp True by auto
    have "takeWhile is_space ((w # sp @ [c1]) @ ?z) = (w # sp @ [c1]) @ takeWhile is_space ?z"
      using all by (rule takeWhile_append2)
    then have len: "2 \<le> length ?ws" by (simp add: r_def)
    have "dropWhile is_space ((w # sp @ [c1]) @ ?z) = dropWhile is_space ?z"
      using all by (rule dropWhile_append2)
    then have vz: "?v = dropWhile is_space ?z" by (simp add: r_def)
    show ?thesis
    proof (cases "dropWhile is_space a = []")
      case True
      then have "\<And>x. x \<in> set a \<Longrightarrow> is_space x" by simp
      then have "dropWhile is_space (a @ COLON # b @ [c2]) = dropWhile is_space (COLON # b @ [c2])"
        by (rule dropWhile_append2)
      with vz colon_not_space have "?v = COLON # b @ [c2]" by simp
      then have "hd ?v = COLON" "tl ?v \<noteq> []" by simp_all
      with len show ?thesis by blast
    next
      case False
      then obtain x where "x \<in> set a" "\<not> is_space x" by auto
      then have "dropWhile is_space (a @ COLON # b @ [c2]) = dropWhile is_space a @ COLON # b @ [c2]"
        by (rule dropWhile_append1)
      moreover from False obtain y ys where "dropWhile is_space a = y # ys"
        by (cases "dropWhile is_space a") auto
      ultimately have "?v = y # ys @ COLON # b @ [c2]" using vz by simp
      then have "butlast (tl ?v) = ys @ COLON # b" by (simp add: butlast_append)
      then show ?thesis by simp
    qed
  qed
  from nq r have "not_quote (hd ?v)" by simp
  with l ws v hv lv c2 colon show ?rhs by blast
next
  assume ?rhs
  then obtain ws v where l: "l = str ''title:'' @ ws @ v" and ws: "ws \<noteq> []" "\<forall>c \<in> set ws. is_space c"
    and v: "v \<noteq> []" "\<not> is_space (hd v)" "not_quote (hd v)" "not_quote (last v)"
    and colon: "COLON \<in> set (butlast (tl v)) \<or> (hd v = COLON \<and> tl v \<noteq> [] \<and> 2 \<le> length ws)"
    by blast
  from ws obtain w sp where wsp: "ws = w # sp" by (cases ws) auto
  from v obtain x t where vx: "v = x # t" by (cases v) auto
  have "dropWhile is_space (ws @ v) = dropWhile is_space v"
    using ws by (intro dropWhile_append2) auto
  with vx v have dv: "dropWhile is_space (drop 6 l) = v" using l by simp
  have "unquoted_match l"
  proof -
    from colon have "\<exists>w sp c1 a b c2. l = str ''title:'' @ w # sp @ c1 # a @ COLON # b @ [c2] \<and>
              is_space w \<and> (\<forall>c \<in> set sp. is_space c) \<and> not_quote c1 \<and> not_quote c2"
    proof
      assume "COLON \<in> set (butlast (tl v))"
      then obtain a b where ab: "butlast (tl v) = a @ COLON # b" by (auto dest: split_list)
      then have "t \<noteq> []" using vx by auto
      then have "t = butlast t @ [last t]" by simp
      with ab vx have "v = x # a @ COLON # b @ [last t]" by simp
      moreover have "last v = last t" using vx \<open>t \<noteq> []\<close> by simp
      ultimately have "l = str ''title:'' @ w # sp @ x # a @ COLON # b @ [last v]"
        using l wsp by simp
      with ws wsp v vx show ?thesis by auto
    next
      assume c: "hd v = COLON \<and> tl v \<noteq> [] \<and> 2 \<le> length ws"
      with wsp have "sp \<noteq> []" by auto
      then have sp: "sp = butlast sp @ [last sp]" by simp
      from c vx have t: "x = COLON" "t \<noteq> []" by simp_all
      then have "t = butlast t @ [last t]" by simp
      with vx t have "v = [] @ COLON # butlast t @ [last t]" by simp
      moreover have "last v = last t" using vx t by simp
      ultimately have "v = [] @ COLON # butlast t @ [last v]" by simp
      with l wsp sp have "l = str ''title:'' @ w # butlast sp @ last sp # [] @ COLON # butlast t @ [last v]"
        by (metis append.assoc append_Cons append_Nil)
      moreover have "is_space w" "\<forall>c \<in> set (butlast sp). is_space c" "is_space (last sp)"
        using ws wsp \<open>sp \<noteq> []\<close> by (auto dest: in_set_butlastD)
      ultimately show ?thesis using v space_not_quote by blast
    qed
    with unquoted_match_iff[OF nl] show ?thesis by simp
  qed
  with dv v quote_line_iff_unquoted[OF nl] show ?lhs by simp
qed

text \<open>
  Two consequences that do not depend on where exactly the colon stands: a
  \<^verbatim>\<open>title:\<close> line whose unquoted value has a colon strictly inside is rewritten, with
  the value between double quotes; a line that is no \<^verbatim>\<open>title:\<close> line, or has no colon
  after \<^verbatim>\<open>title:\<close>, or has a value that starts with a quote, is not.
\<close>

lemma value_of_title_line:
  assumes "l = str ''title:'' @ ws @ v" and "\<forall>x \<in> set ws. is_space x"
    and "v \<noteq> []" and "\<not> is_space (hd v)"
  shows "dropWhile is_space (drop 6 l) = v"
proof -
  have "dropWhile is_space (ws @ v) = dropWhile is_space v"
    using assms(2) by (intro dropWhile_append2) auto
  moreover have "dropWhile is_space v = v" using assms(3,4) by (cases v) auto
  ultimately show ?thesis using assms(1) by simp
qed

lemma quote_line_inner_colon:
  assumes nl: "NL \<notin> set l" and l: "l = str ''title:'' @ ws @ v"
    and ws: "ws \<noteq> []" "\<forall>x \<in> set ws. is_space x"
    and v: "v \<noteq> []" "\<not> is_space (hd v)" "not_quote (hd v)" "not_quote (last v)"
    and colon: "COLON \<in> set (butlast (tl v))"
  shows "quote_line l = Some (str ''title: '' @ [DQUOTE] @ v @ [DQUOTE])"
proof -
  have "quote_line l \<noteq> None" unfolding quote_line_iff[OF nl] using l ws v colon by blast
  then obtain n where n: "quote_line l = Some n" by blast
  from value_of_title_line[OF l ws(2) v(1,2)] quote_line_Some[OF nl n] n show ?thesis by simp
qed

lemma unquoted_match_has_colon:
  assumes "NL \<notin> set l" and "unquoted_match l"
  shows "COLON \<in> set (drop 6 l)"
proof -
  from unquoted_match_iff[OF assms(1)] assms(2) obtain w sp c1 a b c2 where
    "l = str ''title:'' @ w # sp @ c1 # a @ COLON # b @ [c2]" by blast
  then have "drop 6 l = w # sp @ c1 # a @ COLON # b @ [c2]" by simp
  then show ?thesis by simp
qed

lemma quote_line_other_line:
  assumes nl: "NL \<notin> set l"
    and n: "\<not> prefix (str ''title:'') l \<or> COLON \<notin> set (drop 6 l) \<or>
            starts_with_quote (dropWhile is_space (drop 6 l))"
  shows "quote_line l = None"
proof (cases "unquoted_match l")
  case False
  then show ?thesis by (simp add: quote_line_def)
next
  case True
  from unquoted_match_colon[OF True] have "prefix (str ''title:'') l" by blast
  moreover from unquoted_match_has_colon[OF nl True] have "COLON \<in> set (drop 6 l)" .
  ultimately have "starts_with_quote (dropWhile is_space (drop 6 l))" using n by blast
  with value_match_line[OF nl True] True show ?thesis by (simp add: quote_line_def)
qed

section \<open>Lemmas on the two batch runs\<close>

lemma titles_loop_append:
  "titles_loop cap pre n files = (Inr n', files') \<Longrightarrow>
     titles_loop cap (pre @ rest) n files = titles_loop cap rest n' files'"
proof (induction pre arbitrary: n files)
  case Nil
  then show ?case by simp
next
  case (Cons f pre)
  show ?case
  proof (cases "excluded f")
    case True
    with Cons show ?thesis by simp
  next
    case False
    obtain r fs1 where a: "add_title_to_file cap f files = (r, fs1)" by (cases "add_title_to_file cap f files")
    show ?thesis
    proof (cases r)
      case (Inl e)
      with a False Cons.prems show ?thesis by simp
    next
      case (Inr u)
      with a False Cons.prems have "titles_loop cap pre (n + 1) fs1 = (Inr n', files')" by simp
      from Cons.IH[OF this] a False Inr show ?thesis by simp
    qed
  qed
qed

lemma quotes_main_append:
  "quotes_main pre files = (Inr u, files') \<Longrightarrow>
     quotes_main (pre @ rest) files = quotes_main rest files'"
proof (induction pre arbitrary: files)
  case Nil
  then show ?case by simp
next
  case (Cons f pre)
  obtain r fs1 where a: "fix_title_in_file f files = (r, fs1)" by (cases "fix_title_in_file f files")
  show ?case
  proof (cases r)
    case (Inl e)
    with a Cons.prems show ?thesis by simp
  next
    case (Inr v)
    with a Cons.prems have "quotes_main pre fs1 = (Inr u, files')" by simp
    from Cons.IH[OF this] a Inr show ?thesis by simp
  qed
qed

section \<open>The Title Quoter\<close>

text \<open>
  Claim C1. The Quoter scans every line of the text and knows nothing of frontmatter:
  a readable document, with or without a frontmatter block, is left unchanged (nothing
  is written) exactly when none of its lines matches the Quoter's pattern for an
  unquoted title with a colon. A document without frontmatter is therefore unchanged
  only when no line of its body matches. (The claim as written says that such a
  document is unchanged even if a body line matches.)
\<close>

theorem quoter_unchanged_iff_no_line_matches:
  assumes "read_text files p = Inr c"
  shows "fix_title_in_file p files = (Inr (), files) \<longleftrightarrow>
           (\<forall>l \<in> set (split_nl c). quote_line l = None)"
proof (cases "fix_title c")
  case None
  with assms show ?thesis by (simp add: fix_title_in_file_skip fix_title_None_iff[symmetric])
next
  case (Some c')
  from fix_title_changes[OF Some] assms have "files(p \<mapsto> Text c') \<noteq> files"
    by (metis read_text_Inr fun_upd_same option.inject file_content.inject)
  with fix_title_in_file_write[OF assms Some] Some show ?thesis
    by (simp add: fix_title_None_iff[symmetric])
qed

theorem quoter_unchanged_iff_no_line_matches_witness:
  "\<not> has_frontmatter (str ''# Notes'' @ [NL] @ str ''title: plain text'') \<and>
   fix_title_in_file [str ''docs'', str ''blog'', str ''posts'', str ''a.md'']
     (Map.empty([str ''docs'', str ''blog'', str ''posts'', str ''a.md''] \<mapsto>
        Text (str ''# Notes'' @ [NL] @ str ''title: plain text''))) =
   (Inr (), Map.empty([str ''docs'', str ''blog'', str ''posts'', str ''a.md''] \<mapsto>
        Text (str ''# Notes'' @ [NL] @ str ''title: plain text'')))"
proof -
  let ?p = "[str ''docs'', str ''blog'', str ''posts'', str ''a.md'']"
  let ?c = "str ''# Notes'' @ [NL] @ str ''title: plain text''"
  let ?f = "Map.empty(?p \<mapsto> Text ?c)"
  have h: "read_text ?f ?p = Inr ?c" by (simp add: read_text_def)
  have n: "\<forall>l \<in> set (split_nl ?c). quote_line l = None" by code_simp
  have nf: "\<not> has_frontmatter ?c" by code_simp
  from quoter_unchanged_iff_no_line_matches[OF h] n nf show ?thesis by blast
qed

text \<open>
  The claim as written fails: the text below has no frontmatter block, its second line
  matches the pattern, and the Quoter rewrites that line.
\<close>

theorem quoter_rewrites_body_line_counterexample:
  "\<not> has_frontmatter (str ''Intro'' @ [NL] @ str ''title: A: B'') \<and>
   extract_frontmatter (str ''Intro'' @ [NL] @ str ''title: A: B'') = ([], str ''Intro'' @ [NL] @ str ''title: A: B'') \<and>
   snd (fix_title_in_file [str ''docs'', str ''blog'', str ''posts'', str ''a.md'']
          (Map.empty([str ''docs'', str ''blog'', str ''posts'', str ''a.md''] \<mapsto> Text (str ''Intro'' @ [NL] @ str ''title: A: B''))))
     [str ''docs'', str ''blog'', str ''posts'', str ''a.md''] =
   Some (Text (str ''Intro'' @ [NL] @ str ''title: '' @ [DQUOTE] @ str ''A: B'' @ [DQUOTE]))"
  by code_simp

text \<open>
  Claim C9. Take a line \<^verbatim>\<open>title:\<close>, whitespace, value, whose value neither starts nor
  ends with a quote and has a colon strictly inside, and let no line before it be a
  \<^verbatim>\<open>title:\<close> line that has a colon after \<^verbatim>\<open>title:\<close> and an unquoted value. The
  Quoter writes the text in which exactly that line is replaced by
  \<^verbatim>\<open>title: "<value>"\<close> and every other line is as before; and when no other line of
  the text is such a \<^verbatim>\<open>title:\<close> line, a second run writes nothing. (The claim as
  written promises the second run to be a no-op for every document; the loop breaks
  after the first line it fixes, so a further line of this kind is fixed by the
  next run.)
\<close>

theorem quoter_fixes_first_matching_line:
  assumes "read_text files p = Inr c" and "i < length (split_nl c)"
    and "split_nl c ! i = str ''title:'' @ ws @ v"
    and "ws \<noteq> []" and "\<forall>x \<in> set ws. is_space x"
    and "v \<noteq> []" and "\<not> is_space (hd v)"
    and "not_quote (hd v)" and "not_quote (last v)" and "COLON \<in> set (butlast (tl v))"
    and "\<forall>j < i. \<not> prefix (str ''title:'') (split_nl c ! j) \<or>
                  COLON \<notin> set (drop 6 (split_nl c ! j)) \<or>
                  starts_with_quote (dropWhile is_space (drop 6 (split_nl c ! j)))"
  shows "let new_line = str ''title: '' @ [DQUOTE] @ v @ [DQUOTE];
             c' = join [NL] ((split_nl c)[i := new_line])
         in fix_title_in_file p files = (Inr (), files(p \<mapsto> Text c')) \<and>
            split_nl c' = (split_nl c)[i := new_line] \<and>
            ((\<forall>j < length (split_nl c). j \<noteq> i \<longrightarrow>
                 \<not> prefix (str ''title:'') (split_nl c ! j) \<or>
                 COLON \<notin> set (drop 6 (split_nl c ! j)) \<or>
                 starts_with_quote (dropWhile is_space (drop 6 (split_nl c ! j)))) \<longrightarrow>
               fix_title_in_file p (files(p \<mapsto> Text c')) = (Inr (), files(p \<mapsto> Text c')))"
proof -
  let ?ls = "split_nl c"
  let ?n = "str ''title: '' @ [DQUOTE] @ v @ [DQUOTE]"
  let ?c' = "join [NL] (?ls[i := ?n])"
  have nl: "NL \<notin> set (?ls ! j)" if "j < length ?ls" for j
    using that by (intro split_nl_no_NL[of _ c]) simp
  have val: "dropWhile is_space (drop 6 (?ls ! i)) = v"
    using assms(3,5,6,7) by (rule value_of_title_line)
  have m: "quote_line (?ls ! i) = Some ?n"
    using nl[OF assms(2)] assms(3-10) by (rule quote_line_inner_colon)
  have first: "\<forall>j < i. quote_line (?ls ! j) = None"
  proof (intro allI impI)
    fix j assume j: "j < i"
    with assms(2) have "NL \<notin> set (?ls ! j)" by (intro nl) simp
    moreover from j assms(11) have "\<not> prefix (str ''title:'') (?ls ! j) \<or>
        COLON \<notin> set (drop 6 (?ls ! j)) \<or>
        starts_with_quote (dropWhile is_space (drop 6 (?ls ! j)))" by blast
    ultimately show "quote_line (?ls ! j) = None" by (rule quote_line_other_line)
  qed
  from m have m': "quote_line (?ls ! i) \<noteq> None" by simp
  have "fix_title c = Some ?c' \<and> split_nl ?c' = ?ls[i := ?n] \<and>
        ((\<forall>j < length ?ls. j \<noteq> i \<longrightarrow> quote_line (?ls ! j) = None) \<longrightarrow> fix_title ?c' = None)"
    using fix_title_first_match[OF assms(2) m' first] unfolding Let_def val .
  then have a: "fix_title c = Some ?c'" and b: "split_nl ?c' = ?ls[i := ?n]"
    and c: "(\<forall>j < length ?ls. j \<noteq> i \<longrightarrow> quote_line (?ls ! j) = None) \<longrightarrow> fix_title ?c' = None"
    by blast+
  have w: "fix_title_in_file p files = (Inr (), files(p \<mapsto> Text ?c'))"
    using assms(1) a by (rule fix_title_in_file_write)
  have rd: "read_text (files(p \<mapsto> Text ?c')) p = Inr ?c'" by (simp add: read_text_def)
  have s: "fix_title_in_file p (files(p \<mapsto> Text ?c')) = (Inr (), files(p \<mapsto> Text ?c'))"
    if others: "\<forall>j < length ?ls. j \<noteq> i \<longrightarrow>
                 \<not> prefix (str ''title:'') (?ls ! j) \<or>
                 COLON \<notin> set (drop 6 (?ls ! j)) \<or>
                 starts_with_quote (dropWhile is_space (drop 6 (?ls ! j)))"
  proof -
    have "\<forall>j < length ?ls. j \<noteq> i \<longrightarrow> quote_line (?ls ! j) = None"
    proof (intro allI impI)
      fix j assume j: "j < length ?ls" "j \<noteq> i"
      with others have "\<not> prefix (str ''title:'') (?ls ! j) \<or>
          COLON \<notin> set (drop 6 (?ls ! j)) \<or>
          starts_with_quote (dropWhile is_space (drop 6 (?ls ! j)))" by blast
      with nl[OF j(1)] show "quote_line (?ls ! j) = None" by (rule quote_line_other_line)
    qed
    with c have "fix_title ?c' = None" by blast
    with rd show ?thesis by (rule fix_title_in_file_skip)
  qed
  from w b s show ?thesis unfolding Let_def by blast
qed

theorem quoter_fixes_first_matching_line_witness:
  "split_nl (str ''---'' @ [NL] @ str ''title: Part One: The Beginning'' @ [NL] @ str ''---'' @ [NL] @ str ''text'') ! 1
     = str ''title:'' @ str '' '' @ str ''Part One: The Beginning'' \<and>
   fix_title_in_file [str ''docs'', str ''blog'', str ''posts'', str ''a.md'']
     (Map.empty([str ''docs'', str ''blog'', str ''posts'', str ''a.md''] \<mapsto>
        Text (str ''---'' @ [NL] @ str ''title: Part One: The Beginning'' @ [NL] @ str ''---'' @ [NL] @ str ''text''))) =
   (Inr (), Map.empty([str ''docs'', str ''blog'', str ''posts'', str ''a.md''] \<mapsto>
        Text (str ''---'' @ [NL] @ str ''title: '' @ [DQUOTE] @ str ''Part One: The Beginning'' @ [DQUOTE] @ [NL] @
              str ''---'' @ [NL] @ str ''text''))) \<and>
   fix_title_in_file [str ''docs'', str ''blog'', str ''posts'', str ''a.md'']
     (Map.empty([str ''docs'', str ''blog'', str ''posts'', str ''a.md''] \<mapsto>
        Text (str ''---'' @ [NL] @ str ''title: '' @ [DQUOTE] @ str ''Part One: The Beginning'' @ [DQUOTE] @ [NL] @
              str ''---'' @ [NL] @ str ''text''))) =
   (Inr (), Map.empty([str ''docs'', str ''blog'', str ''posts'', str ''a.md''] \<mapsto>
        Text (str ''---'' @ [NL] @ str ''title: '' @ [DQUOTE] @ str ''Part One: The Beginning'' @ [DQUOTE] @ [NL] @
              str ''---'' @ [NL] @ str ''text'')))"
proof -
  let ?p = "[str ''docs'', str ''blog'', str ''posts'', str ''a.md'']"
  let ?c = "str ''---'' @ [NL] @ str ''title: Part One: The Beginning'' @ [NL] @ str ''---'' @ [NL] @ str ''text''"
  let ?c' = "str ''---'' @ [NL] @ str ''title: '' @ [DQUOTE] @ str ''Part One: The Beginning'' @ [DQUOTE] @ [NL] @
             str ''---'' @ [NL] @ str ''text''"
  let ?ws = "str '' ''"
  let ?v = "str ''Part One: The Beginning''"
  let ?f = "Map.empty(?p \<mapsto> Text ?c)"
  let ?N = "\<lambda>j. \<not> prefix (str ''title:'') (split_nl ?c ! j) \<or>
                 COLON \<notin> set (drop 6 (split_nl ?c ! j)) \<or>
                 starts_with_quote (dropWhile is_space (drop 6 (split_nl ?c ! j)))"
  have h1: "read_text ?f ?p = Inr ?c" by (simp add: read_text_def)
  have h2: "1 < length (split_nl ?c)" by code_simp
  have h3: "split_nl ?c ! 1 = str ''title:'' @ ?ws @ ?v" by code_simp
  have h4: "?ws \<noteq> []" by simp
  have h5: "\<forall>x \<in> set ?ws. is_space x" by code_simp
  have h6: "?v \<noteq> []" by simp
  have h7: "\<not> is_space (hd ?v)" by code_simp
  have h8: "not_quote (hd ?v)" by code_simp
  have h9: "not_quote (last ?v)" by code_simp
  have h10: "COLON \<in> set (butlast (tl ?v))" by code_simp
  have n0: "\<not> prefix (str ''title:'') (split_nl ?c ! 0)" by code_simp
  have n2: "\<not> prefix (str ''title:'') (split_nl ?c ! 2)" by code_simp
  have n3: "\<not> prefix (str ''title:'') (split_nl ?c ! 3)" by code_simp
  have h11: "\<forall>j < 1. ?N j" using n0 by simp
  have len: "length (split_nl ?c) = 4" by code_simp
  have others: "\<forall>j < length (split_nl ?c). j \<noteq> 1 \<longrightarrow> ?N j"
  proof (intro allI impI)
    fix j assume "j < length (split_nl ?c)" and "j \<noteq> 1"
    with len have "j = 0 \<or> j = 2 \<or> j = 3" by auto
    with n0 n2 n3 show "?N j" by auto
  qed
  have v: "join [NL] ((split_nl ?c)[1 := str ''title: '' @ [DQUOTE] @ ?v @ [DQUOTE]]) = ?c'" by code_simp
  from quoter_fixes_first_matching_line[OF h1 h2 h3 h4 h5 h6 h7 h8 h9 h10 h11, unfolded Let_def] others
  have "fix_title_in_file ?p ?f = (Inr (), ?f(?p \<mapsto> Text (join [NL] ((split_nl ?c)[1 := str ''title: '' @ [DQUOTE] @
             ?v @ [DQUOTE]]))))"
    and "fix_title_in_file ?p (?f(?p \<mapsto> Text (join [NL] ((split_nl ?c)[1 := str ''title: '' @ [DQUOTE] @
             ?v @ [DQUOTE]])))) =
         (Inr (), ?f(?p \<mapsto> Text (join [NL] ((split_nl ?c)[1 := str ''title: '' @ [DQUOTE] @
             ?v @ [DQUOTE]]))))"
    by blast+
  then show ?thesis unfolding v using h3 by simp
qed

text \<open>
  The claim as written fails: both lines of the text below are unquoted titles with a
  colon inside; the first run quotes the first of them, and the second run is not a
  no-op, it quotes the second.
\<close>

theorem quoter_second_run_changes_counterexample:
  "snd (fix_title_in_file [str ''docs'', str ''blog'', str ''posts'', str ''a.md'']
          (Map.empty([str ''docs'', str ''blog'', str ''posts'', str ''a.md''] \<mapsto>
             Text (str ''title: A: B'' @ [NL] @ str ''title: C: D''))))
     [str ''docs'', str ''blog'', str ''posts'', str ''a.md''] =
   Some (Text (str ''title: '' @ [DQUOTE] @ str ''A: B'' @ [DQUOTE] @ [NL] @ str ''title: C: D'')) \<and>
   snd (fix_title_in_file [str ''docs'', str ''blog'', str ''posts'', str ''a.md'']
          (snd (fix_title_in_file [str ''docs'', str ''blog'', str ''posts'', str ''a.md'']
                  (Map.empty([str ''docs'', str ''blog'', str ''posts'', str ''a.md''] \<mapsto>
                     Text (str ''title: A: B'' @ [NL] @ str ''title: C: D''))))))
     [str ''docs'', str ''blog'', str ''posts'', str ''a.md''] =
   Some (Text (str ''title: '' @ [DQUOTE] @ str ''A: B'' @ [DQUOTE] @ [NL] @
               str ''title: '' @ [DQUOTE] @ str ''C: D'' @ [DQUOTE]))"
  by code_simp

section \<open>Failures in a batch\<close>

text \<open>
  Claim C2. Neither \<^verbatim>\<open>main\<close> catches an exception. When the files before a file
  have been processed and reading that file fails (its path does not exist, or its
  content does not decode), the run ends there with that error: the files before it
  keep what was written to them, and no file after it is processed, whatever the rest
  of the batch is. (The claim as written says that only the failing file is skipped.)
\<close>

theorem batch_ends_at_first_failure:
  assumes "read_text files' bad = Inl e"
  shows "(titles_main cap pre files = (Inr n, files') \<and> \<not> excluded bad \<longrightarrow>
            titles_main cap (pre @ bad # post) files = (Inl e, files')) \<and>
         (quotes_main pre files = (Inr (), files') \<longrightarrow>
            quotes_main (pre @ bad # post) files = (Inl e, files'))"
proof (intro conjI impI)
  assume a: "titles_main cap pre files = (Inr n, files') \<and> \<not> excluded bad"
  then have "titles_loop cap pre 0 files = (Inr n, files')" by (simp add: titles_main_def)
  from titles_loop_append[OF this, of "bad # post"] a assms
  show "titles_main cap (pre @ bad # post) files = (Inl e, files')"
    by (simp add: titles_main_def add_title_to_file_raise)
next
  assume "quotes_main pre files = (Inr (), files')"
  from quotes_main_append[OF this, of "bad # post"] assms
  show "quotes_main (pre @ bad # post) files = (Inl e, files')"
    by (simp add: fix_title_in_file_raise)
qed

theorem batch_ends_at_first_failure_witness:
  "titles_main (\<lambda>w. w) [[str ''docs'', str ''blog'', str ''posts'', str ''a.md''], [str ''docs'', str ''blog'', str ''posts'', str ''b.md''],
                [str ''docs'', str ''blog'', str ''posts'', str ''c.md'']]
     (Map.empty([str ''docs'', str ''blog'', str ''posts'', str ''a.md''] \<mapsto>
                   Text (str ''---'' @ [NL] @ str ''title: A'' @ [NL] @ str ''---'' @ [NL] @ str ''text''),
                [str ''docs'', str ''blog'', str ''posts'', str ''c.md''] \<mapsto> Text (str ''title: C: D''))) =
   (Inl FileNotFoundError,
     Map.empty([str ''docs'', str ''blog'', str ''posts'', str ''a.md''] \<mapsto>
                   Text (str ''---'' @ [NL] @ str ''title: A'' @ [NL] @ str ''---'' @ [NL] @ str ''text''),
                [str ''docs'', str ''blog'', str ''posts'', str ''c.md''] \<mapsto> Text (str ''title: C: D''))) \<and>
   quotes_main [[str ''docs'', str ''blog'', str ''posts'', str ''a.md''], [str ''docs'', str ''blog'', str ''posts'', str ''b.md''],
                [str ''docs'', str ''blog'', str ''posts'', str ''c.md'']]
     (Map.empty([str ''docs'', str ''blog'', str ''posts'', str ''a.md''] \<mapsto>
                   Text (str ''---'' @ [NL] @ str ''title: A'' @ [NL] @ str ''---'' @ [NL] @ str ''text''),
                [str ''docs'', str ''blog'', str ''posts'', str ''c.md''] \<mapsto> Text (str ''title: C: D''))) =
   (Inl FileNotFoundError,
     Map.empty([str ''docs'', str ''blog'', str ''posts'', str ''a.md''] \<mapsto>
                   Text (str ''---'' @ [NL] @ str ''title: A'' @ [NL] @ str ''---'' @ [NL] @ str ''text''),
                [str ''docs'', str ''blog'', str ''posts'', str ''c.md''] \<mapsto> Text (str ''title: C: D'')))"
proof -
  let ?a = "[str ''docs'', str ''blog'', str ''posts'', str ''a.md'']"
  let ?b = "[str ''docs'', str ''blog'', str ''posts'', str ''b.md'']"
  let ?c = "[str ''docs'', str ''blog'', str ''posts'', str ''c.md'']"
  let ?ta = "str ''---'' @ [NL] @ str ''title: A'' @ [NL] @ str ''---'' @ [NL] @ str ''text''"
  let ?f = "Map.empty(?a \<mapsto> Text ?ta, ?c \<mapsto> Text (str ''title: C: D''))"
  have rd_a: "read_text ?f ?a = Inr ?ta" by (simp add: read_text_def)
  have rd_b: "read_text ?f ?b = Inl FileNotFoundError" by (simp add: read_text_def)
  have skip_t: "add_title (\<lambda>w. w) ?a ?ta = None" by code_simp
  have skip_q: "fix_title ?ta = None" by code_simp
  have ex_a: "\<not> excluded ?a" by code_simp
  have ex_b: "\<not> excluded ?b" by code_simp
  have t: "titles_main (\<lambda>w. w) [?a] ?f = (Inr 1, ?f)"
    using ex_a add_title_to_file_skip[OF rd_a skip_t] by (simp add: titles_main_def)
  have q: "quotes_main [?a] ?f = (Inr (), ?f)"
    using fix_title_in_file_skip[OF rd_a skip_q] by simp
  from batch_ends_at_first_failure[OF rd_b, of "\<lambda>w. w" "[?a]" ?f 1 "[?c]"] t q ex_b
  show ?thesis by simp
qed

text \<open>
  The claim as written fails for both scripts: the first file of the batch cannot be
  read, and the second file, which a run of its own would rewrite, is left as it was.
\<close>

theorem batch_aborts_counterexample:
  "\<forall>cap.
     fst (titles_main cap [[str ''docs'', str ''a.md''], [str ''docs'', str ''b.md'']]
            (Map.empty([str ''docs'', str ''b.md''] \<mapsto> Text (str ''# B'')))) = Inl FileNotFoundError \<and>
     snd (titles_main cap [[str ''docs'', str ''a.md''], [str ''docs'', str ''b.md'']]
            (Map.empty([str ''docs'', str ''b.md''] \<mapsto> Text (str ''# B'')))) [str ''docs'', str ''b.md''] = Some (Text (str ''# B'')) \<and>
     snd (titles_main cap [[str ''docs'', str ''b.md'']]
            (Map.empty([str ''docs'', str ''b.md''] \<mapsto> Text (str ''# B'')))) [str ''docs'', str ''b.md''] =
       Some (Text (str ''---'' @ [NL] @ str ''title: B'' @ [NL] @ str ''---'' @ [NL] @ str ''# B'')) \<and>
     fst (quotes_main [[str ''docs'', str ''blog'', str ''posts'', str ''a.md''], [str ''docs'', str ''blog'', str ''posts'', str ''b.md'']]
            (Map.empty([str ''docs'', str ''blog'', str ''posts'', str ''a.md''] \<mapsto> Undecodable,
                       [str ''docs'', str ''blog'', str ''posts'', str ''b.md''] \<mapsto> Text (str ''title: A: B'')))) = Inl UnicodeDecodeError \<and>
     snd (quotes_main [[str ''docs'', str ''blog'', str ''posts'', str ''a.md''], [str ''docs'', str ''blog'', str ''posts'', str ''b.md'']]
            (Map.empty([str ''docs'', str ''blog'', str ''posts'', str ''a.md''] \<mapsto> Undecodable,
                       [str ''docs'', str ''blog'', str ''posts'', str ''b.md''] \<mapsto> Text (str ''title: A: B''))))
        [str ''docs'', str ''blog'', str ''posts'', str ''b.md''] = Some (Text (str ''title: A: B'')) \<and>
     snd (quotes_main [[str ''docs'', str ''blog'', str ''posts'', str ''b.md'']]
            (Map.empty([str ''docs'', str ''blog'', str ''posts'', str ''a.md''] \<mapsto> Undecodable,
                       [str ''docs'', str ''blog'', str ''posts'', str ''b.md''] \<mapsto> Text (str ''title: A: B''))))
        [str ''docs'', str ''blog'', str ''posts'', str ''b.md''] = Some (Text (str ''title: '' @ [DQUOTE] @ str ''A: B'' @ [DQUOTE]))"
proof
  fix cap :: "ustr \<Rightarrow> ustr"
  show "fst (titles_main cap [[str ''docs'', str ''a.md''], [str ''docs'', str ''b.md'']]
          (Map.empty([str ''docs'', str ''b.md''] \<mapsto> Text (str ''# B'')))) = Inl FileNotFoundError \<and>
   snd (titles_main cap [[str ''docs'', str ''a.md''], [str ''docs'', str ''b.md'']]
          (Map.empty([str ''docs'', str ''b.md''] \<mapsto> Text (str ''# B'')))) [str ''docs'', str ''b.md''] = Some (Text (str ''# B'')) \<and>
   snd (titles_main cap [[str ''docs'', str ''b.md'']]
          (Map.empty([str ''docs'', str ''b.md''] \<mapsto> Text (str ''# B'')))) [str ''docs'', str ''b.md''] =
     Some (Text (str ''---'' @ [NL] @ str ''title: B'' @ [NL] @ str ''---'' @ [NL] @ str ''# B'')) \<and>
   fst (quotes_main [[str ''docs'', str ''blog'', str ''posts'', str ''a.md''], [str ''docs'', str ''blog'', str ''posts'', str ''b.md'']]
          (Map.empty([str ''docs'', str ''blog'', str ''posts'', str ''a.md''] \<mapsto> Undecodable,
                     [str ''docs'', str ''blog'', str ''posts'', str ''b.md''] \<mapsto> Text (str ''title: A: B'')))) = Inl UnicodeDecodeError \<and>
   snd (quotes_main [[str ''docs'', str ''blog'', str ''posts'', str ''a.md''], [str ''docs'', str ''blog'', str ''posts'', str ''b.md'']]
          (Map.empty([str ''docs'', str ''blog'', str ''posts'', str ''a.md''] \<mapsto> Undecodable,
                     [str ''docs'', str ''blog'', str ''posts'', str ''b.md''] \<mapsto> Text (str ''title: A: B''))))
      [str ''docs'', str ''blog'', str ''posts'', str ''b.md''] = Some (Text (str ''title: A: B'')) \<and>
   snd (quotes_main [[str ''docs'', str ''blog'', str ''posts'', str ''b.md'']]
          (Map.empty([str ''docs'', str ''blog'', str ''posts'', str ''a.md''] \<mapsto> Undecodable,
                     [str ''docs'', str ''blog'', str ''posts'', str ''b.md''] \<mapsto> Text (str ''title: A: B''))))
      [str ''docs'', str ''blog'', str ''posts'', str ''b.md''] = Some (Text (str ''title: '' @ [DQUOTE] @ str ''A: B'' @ [DQUOTE]))"
    by code_simp
qed

end
